theory Spec2Isabelle
  imports Main "HOL-Library.Word" "HOL-Library.Monad_Syntax"
begin

unbundle bit_operations_syntax

section \<open>The perceptron branch predictor of \<^verbatim>\<open>perceptron.cc\<close>\<close>

text \<open>
  The C++ class \<^verbatim>\<open>PerceptronBP\<close> is embedded with explicit state passing. Every member
  function takes the object, the heap on which the \<^verbatim>\<open>BPHistory\<close> snapshots live and the
  caller's handle (the \<^verbatim>\<open>void * &bp_history\<close> reference), and returns the new object,
  heap and handle. The result is an \<open>option\<close>: \<open>None\<close> stands for an execution that C++
  leaves undefined or aborts (an index outside a vector, a null or dangling snapshot
  pointer, an indeterminate field that is read, \<^verbatim>\<open>back()\<close> on an empty vector, a shift by
  the width of the type or more, the failed \<^verbatim>\<open>assert\<close>).

  Machine integers: \<^verbatim>\<open>Addr\<close> is a 64-bit word, \<^verbatim>\<open>unsigned\<close> a 32-bit word, and \<^verbatim>\<open>int\<close> a
  32-bit word that is read as two's complement with \<open>sint\<close>; arithmetic on \<^verbatim>\<open>int\<close> wraps
  around. Widths and loop counters, which stay far below \<open>2 ^ 31\<close>, are natural numbers.
\<close>

subsection \<open>Data\<close>

type_synonym Addr = "64 word"
type_synonym unsigned = "32 word"
type_synonym cint = "32 word"

text \<open>
  \<^verbatim>\<open>struct BPHistory\<close>. \<^verbatim>\<open>new BPHistory\<close> leaves \<^verbatim>\<open>branchAddr\<close> indeterminate until
  \<^verbatim>\<open>updateHistories\<close> stores the evicted address; \<open>None\<close> is the indeterminate value.
\<close>

record BPHistory =
  bph_globalHistoryReg :: unsigned
  bph_branchAddr :: "unsigned option"
  bph_local :: cint
  bph_path :: "Addr list"
  bph_new_pc :: unsigned
  bph_branchAddrReplaced :: bool
  bph_last_y :: cint

text \<open>The data members of \<^verbatim>\<open>class PerceptronBP\<close>, in the order of the header.\<close>

record PerceptronBP =
  globalHistoryReg :: "unsigned list"
  globalHistoryBits :: nat
  globalHistoryMask :: unsigned
  localMask :: unsigned
  pcMask :: unsigned
  localHistoryBits :: nat
  history_length :: nat
  branchAddrBits :: nat
  branchHistoryTable :: "cint list"
  pathTable :: "Addr list list"
  historyWeightTable :: "cint list list"
  addrWeightTable :: "cint list list"

text \<open>
  The fields of \<^verbatim>\<open>PerceptronBPParams\<close> that the constructor reads (the generated header
  \<^verbatim>\<open>params/PerceptronBP.hh\<close> is not part of the sources).
\<close>

record PerceptronBPParams =
  par_globalHistoryBits :: nat
  par_localHistoryBits :: nat
  par_branchAddrBits :: nat
  par_numThreads :: nat

text \<open>
  The heap of snapshots. An address is an index into the list, \<^verbatim>\<open>new\<close> appends a cell (so
  the address it returns is fresh), \<^verbatim>\<open>delete\<close> empties the cell. A handle is
  \<open>None\<close> for \<^verbatim>\<open>nullptr\<close> and \<open>Some p\<close> for the address \<open>p\<close>.
\<close>

type_synonym heap = "BPHistory option list"
type_synonym handle = "nat option"

definition deref :: "heap \<Rightarrow> nat \<Rightarrow> BPHistory option" where
  "deref hp p = (if p < length hp then hp ! p else None)"

definition new_BPHistory :: "heap \<Rightarrow> BPHistory \<Rightarrow> heap \<times> nat" where
  "new_BPHistory hp h = (hp @ [Some h], length hp)"

definition delete_BPHistory :: "heap \<Rightarrow> nat \<Rightarrow> heap" where
  "delete_BPHistory hp p = hp[p := None]"

text \<open>\<^verbatim>\<open>v[i]\<close> on a \<^verbatim>\<open>std::vector\<close>: defined only inside the vector.\<close>

definition at :: "'a list \<Rightarrow> nat \<Rightarrow> 'a option" where
  "at xs i = (if i < length xs then Some (xs ! i) else None)"

subsection \<open>The constructor\<close>

definition makeMask :: "nat \<Rightarrow> Addr" where
  "makeMask bits =
     (if bits = 0 then 0
      else if bits \<ge> 64 then NOT 0
      else push_bit bits 1 - 1)"

text \<open>
  \<^verbatim>\<open>history_length\<close> and the row lengths are sums of \<^verbatim>\<open>unsigned\<close> values and wrap at
  \<open>2 ^ 32\<close>; the masks are computed as \<^verbatim>\<open>Addr\<close> and stored in \<^verbatim>\<open>unsigned\<close> members;
  \<^verbatim>\<open>size_t(1) << branchAddrBits\<close> is undefined from 64 bits on.
\<close>

definition PerceptronBP_new :: "PerceptronBPParams \<Rightarrow> PerceptronBP option" where
  "PerceptronBP_new params =
     (let g = par_globalHistoryBits params;
          l = par_localHistoryBits params;
          h = (g + l) mod 2 ^ 32;
          a = par_branchAddrBits params
      in if a \<ge> 64 then None
         else Some \<lparr>
           globalHistoryReg = replicate (par_numThreads params) 0,
           globalHistoryBits = g,
           globalHistoryMask = ucast (makeMask g),
           localMask = ucast (makeMask l),
           pcMask = ucast (makeMask a),
           localHistoryBits = l,
           history_length = h,
           branchAddrBits = a,
           branchHistoryTable = replicate (2 ^ a) 0,
           pathTable = replicate (par_numThreads params) (replicate (max a h) 0),
           historyWeightTable = replicate (2 ^ a) (replicate ((h + 1) mod 2 ^ 32) 0),
           addrWeightTable = replicate (2 ^ a) (replicate ((a + 1) mod 2 ^ 32) 0) \<rparr>)"

subsection \<open>lookup\<close>

text \<open>
  The two scoring loops of \<^verbatim>\<open>lookup\<close> have one shape,
  \<^verbatim>\<open>for (int j = 1; j <= n; ++j) { unsigned k = path[j-1]; bit_j = (reg >> (j-1)) & 1;
     if (bit_j) y += table[k][j]; else y -= table[k][j]; }\<close>
  with \<open>(table, reg, n)\<close> the history weights, \<^verbatim>\<open>history_reg\<close> and \<^verbatim>\<open>history_length\<close> in
  the first loop and the address weights, \<^verbatim>\<open>new_pc\<close> and \<^verbatim>\<open>branchAddrBits\<close> in the second.
  \<open>score_loop\<close> is that loop from counter \<open>j\<close> and accumulator \<open>y\<close> on.
\<close>

function score_loop ::
  "Addr list \<Rightarrow> cint list list \<Rightarrow> Addr \<Rightarrow> nat \<Rightarrow> nat \<Rightarrow> cint \<Rightarrow> cint option" where
  "score_loop path table reg n j y =
     (if j \<le> n then
        (case at path (j - 1) of
           None \<Rightarrow> None
         | Some e \<Rightarrow>
             (let k = (ucast e :: unsigned) in
              if 64 \<le> j - 1 then None
              else
                (let bit_j = (drop_bit (j - 1) reg AND 1 \<noteq> 0) in
                 case Option.bind (at table (unat k)) (\<lambda>row. at row j) of
                   None \<Rightarrow> None
                 | Some w \<Rightarrow>
                     score_loop path table reg n (j + 1) (if bit_j then y + w else y - w))))
      else Some y)"
  by pat_completeness auto
termination
  by (relation "measure (\<lambda>(path, table, reg, n, j, y). n + 1 - j)") auto

declare score_loop.simps [simp del]

definition lookup ::
  "PerceptronBP \<Rightarrow> heap \<Rightarrow> nat \<Rightarrow> Addr \<Rightarrow> (PerceptronBP \<times> heap \<times> handle \<times> bool) option" where
  "lookup this hp tid pc =
     (let new_pc = pc AND ucast (pcMask this) in
      do {
        g \<leftarrow> at (globalHistoryReg this) tid;
        b \<leftarrow> at (branchHistoryTable this) (unat new_pc);
        let global = (ucast (g AND globalHistoryMask this) :: Addr);
        let local = (ucast (b AND localMask this) :: Addr);
        hrow \<leftarrow> at (historyWeightTable this) (unat new_pc);
        y0 \<leftarrow> at hrow 0;
        history_reg \<leftarrow>
          (if 64 \<le> localHistoryBits this then None
           else Some (push_bit (localHistoryBits this) global OR local));
        pt \<leftarrow> at (pathTable this) tid;
        y_hist \<leftarrow> score_loop pt (historyWeightTable this) history_reg (history_length this) 1 y0;
        arow \<leftarrow> at (addrWeightTable this) (unat new_pc);
        a0 \<leftarrow> at arow 0;
        y_addr \<leftarrow> score_loop pt (addrWeightTable this) new_pc (branchAddrBits this) 1 a0;
        let y = y_addr + y_hist;
        let history = \<lparr>
              bph_globalHistoryReg = g,
              bph_branchAddr = None,
              bph_local = ucast local,
              bph_path = pt,
              bph_new_pc = ucast new_pc,
              bph_branchAddrReplaced = False,
              bph_last_y = y \<rparr>;
        let (hp', p) = new_BPHistory hp history;
        Some (this, hp', Some p, 0 \<le> sint y)
      })"

subsection \<open>update\<close>

text \<open>\<^verbatim>\<open>if (up) ++table[r][c]; else --table[r][c];\<close>\<close>

definition bump :: "cint list list \<Rightarrow> nat \<Rightarrow> nat \<Rightarrow> bool \<Rightarrow> cint list list option" where
  "bump table r c up =
     do {
       row \<leftarrow> at table r;
       w \<leftarrow> at row c;
       Some (table[r := row[c := (if up then w + 1 else w - 1)]])
     }"

text \<open>
  The two training loops of \<^verbatim>\<open>update\<close>,
  \<^verbatim>\<open>for (int j = 1; j <= n; ++j) { unsigned k = history->path[j-1];
     bit_j = (reg >> (j-1)) & 1; if (taken == bit_j) ++table[k][j]; else --table[k][j]; }\<close>
  with the same \<open>(table, reg, n)\<close> as in \<^verbatim>\<open>lookup\<close>; the path is the snapshot's copy.
\<close>

function train_loop ::
  "Addr list \<Rightarrow> bool \<Rightarrow> Addr \<Rightarrow> nat \<Rightarrow> nat \<Rightarrow> cint list list \<Rightarrow> cint list list option" where
  "train_loop path taken reg n j table =
     (if j \<le> n then
        (case at path (j - 1) of
           None \<Rightarrow> None
         | Some e \<Rightarrow>
             (let k = (ucast e :: unsigned) in
              if 64 \<le> j - 1 then None
              else
                (let bit_j = (drop_bit (j - 1) reg AND 1 \<noteq> 0) in
                 case bump table (unat k) j (taken = bit_j) of
                   None \<Rightarrow> None
                 | Some table' \<Rightarrow> train_loop path taken reg n (j + 1) table')))
      else Some table)"
  by pat_completeness auto
termination
  by (relation "measure (\<lambda>(path, taken, reg, n, j, table). n + 1 - j)") auto

declare train_loop.simps [simp del]

text \<open>
  The block that \<^verbatim>\<open>update\<close> runs when training fires (the body of its first
  \<^verbatim>\<open>if\<close>). \<^verbatim>\<open>local = history->local\<close> converts an \<^verbatim>\<open>int\<close> to \<^verbatim>\<open>Addr\<close>, which extends
  the sign (\<open>scast\<close>).
\<close>

definition update_train :: "PerceptronBP \<Rightarrow> BPHistory \<Rightarrow> Addr \<Rightarrow> bool \<Rightarrow> PerceptronBP option" where
  "update_train this history new_pc taken =
     do {
       hw0 \<leftarrow> bump (historyWeightTable this) (unat new_pc) 0 taken;
       let global = (ucast (bph_globalHistoryReg history AND globalHistoryMask this) :: Addr);
       let local = (scast (bph_local history) :: Addr);
       history_reg \<leftarrow>
         (if 64 \<le> localHistoryBits this then None
          else Some (push_bit (localHistoryBits this) global OR local));
       hw \<leftarrow> train_loop (bph_path history) taken history_reg (history_length this) 1 hw0;
       aw0 \<leftarrow> bump (addrWeightTable this) (unat new_pc) 0 taken;
       aw \<leftarrow> train_loop (bph_path history) taken new_pc (branchAddrBits this) 1 aw0;
       Some (this\<lparr>historyWeightTable := hw, addrWeightTable := aw\<rparr>)
     }"

text \<open>
  \<^verbatim>\<open>update\<close>: the \<^verbatim>\<open>assert\<close> and the cast of the handle, the training block under its
  condition, and the disposal of the snapshot. The thread \<open>tid\<close>, \<^verbatim>\<open>inst\<close> and \<^verbatim>\<open>target\<close>
  are not used by the body.
\<close>

definition update ::
  "PerceptronBP \<Rightarrow> heap \<Rightarrow> nat \<Rightarrow> Addr \<Rightarrow> bool \<Rightarrow> handle \<Rightarrow> bool \<Rightarrow>
     (PerceptronBP \<times> heap \<times> handle) option" where
  "update this hp tid pc taken bp_history squashed =
     do {
       p \<leftarrow> bp_history;
       history \<leftarrow> deref hp p;
       let new_pc = pc AND ucast (pcMask this);
       this' \<leftarrow>
         (if squashed \<or> (sint (bph_last_y history) \<le> 64 \<and> sint (bph_last_y history) \<ge> - 64)
          then update_train this history new_pc taken
          else Some this);
       (if \<not> squashed then Some (this', delete_BPHistory hp p, None)
        else Some (this', hp, bp_history))
     }"

subsection \<open>updateHistories\<close>

definition updateHistories ::
  "PerceptronBP \<Rightarrow> heap \<Rightarrow> nat \<Rightarrow> Addr \<Rightarrow> bool \<Rightarrow> bool \<Rightarrow> handle \<Rightarrow>
     (PerceptronBP \<times> heap \<times> handle) option" where
  "updateHistories this hp tid pc uncond taken bp_history0 =
     (let new_pc = pc AND ucast (pcMask this) in
      do {
        g \<leftarrow> at (globalHistoryReg this) tid;
        b \<leftarrow> at (branchHistoryTable this) (unat new_pc);
        pt \<leftarrow> at (pathTable this) tid;
        let (hp1, bp_history) =
          (if uncond then
             (let (hp', p) = new_BPHistory hp \<lparr>
                    bph_globalHistoryReg = g,
                    bph_branchAddr = None,
                    bph_local = b AND localMask this,
                    bph_path = pt,
                    bph_new_pc = ucast new_pc,
                    bph_branchAddrReplaced = False,
                    bph_last_y = 0 \<rparr>
              in (hp', Some p))
           else (hp, bp_history0));
        let PT_LEN = max (branchAddrBits this) (history_length this);
        (hp2, pt') \<leftarrow>
          (if length pt = PT_LEN then
             do {
               p \<leftarrow> bp_history;
               history \<leftarrow> deref hp1 p;
               (if pt = [] then None
                else Some (hp1[p := Some (history\<lparr>
                             bph_branchAddr := Some (ucast (last pt)),
                             bph_branchAddrReplaced := True\<rparr>)],
                           butlast pt))
             }
           else Some (hp1, pt));
        Some (this\<lparr>
                globalHistoryReg := (globalHistoryReg this)
                  [tid := (push_bit 1 g OR (if taken then 1 else 0)) AND globalHistoryMask this],
                branchHistoryTable := (branchHistoryTable this)
                  [unat new_pc := (push_bit 1 b OR (if taken then 1 else 0)) AND localMask this],
                pathTable := (pathTable this)[tid := new_pc # pt']\<rparr>,
              hp2, bp_history)
      })"

subsection \<open>squash\<close>

definition squash ::
  "PerceptronBP \<Rightarrow> heap \<Rightarrow> nat \<Rightarrow> handle \<Rightarrow> (PerceptronBP \<times> heap \<times> handle) option" where
  "squash this hp tid bp_history =
     do {
       p \<leftarrow> bp_history;
       history \<leftarrow> deref hp p;
       _ \<leftarrow> at (globalHistoryReg this) tid;
       _ \<leftarrow> at (branchHistoryTable this) (unat (bph_new_pc history));
       pt \<leftarrow> at (pathTable this) tid;
       let pt1 = (if pt \<noteq> [] then tl pt else pt);
       pt2 \<leftarrow>
         (if bph_branchAddrReplaced history then
            (case bph_branchAddr history of
               None \<Rightarrow> None
             | Some a \<Rightarrow> Some (pt1 @ [ucast a]))
          else Some pt1);
       Some (this\<lparr>
               globalHistoryReg := (globalHistoryReg this)[tid := bph_globalHistoryReg history],
               branchHistoryTable := (branchHistoryTable this)
                 [unat (bph_new_pc history) := bph_local history],
               pathTable := (pathTable this)[tid := pt2]\<rparr>,
             delete_BPHistory hp p, None)
     }"

section \<open>Properties\<close>

subsection \<open>Well-formed predictors and snapshots\<close>

text \<open>
  \<open>inv\<close> collects what the constructor establishes and every member function keeps: the
  widths stay inside the shifts of the code, the path queues are not empty, the tables
  have the sizes the constructor gave them, every path entry is a bucket (at most
  \<^verbatim>\<open>pcMask\<close>), and every local history register is masked.
\<close>

definition inv :: "PerceptronBP \<Rightarrow> bool" where
  "inv this \<longleftrightarrow>
     history_length this \<le> 64 \<and> localHistoryBits this < 64 \<and> branchAddrBits this < 64 \<and>
     0 < max (branchAddrBits this) (history_length this) \<and>
     unat (pcMask this) < 2 ^ branchAddrBits this \<and>
     length (pathTable this) = length (globalHistoryReg this) \<and>
     length (branchHistoryTable this) = 2 ^ branchAddrBits this \<and>
     length (historyWeightTable this) = 2 ^ branchAddrBits this \<and>
     list_all (\<lambda>row. length row = history_length this + 1) (historyWeightTable this) \<and>
     length (addrWeightTable this) = 2 ^ branchAddrBits this \<and>
     list_all (\<lambda>row. length row = branchAddrBits this + 1) (addrWeightTable this) \<and>
     list_all (\<lambda>pt. length pt = max (branchAddrBits this) (history_length this) \<and>
                     list_all (\<lambda>e. unat e \<le> unat (pcMask this)) pt) (pathTable this) \<and>
     list_all (\<lambda>b. b AND localMask this = b) (branchHistoryTable this)"

text \<open>
  Parameters inside the shifts of the code (\<^verbatim>\<open>global << localHistoryBits\<close>,
  \<^verbatim>\<open>history_reg >> (j-1)\<close>, \<^verbatim>\<open>size_t(1) << branchAddrBits\<close>) and with a path queue of at
  least one entry.
\<close>

definition params_ok :: "PerceptronBPParams \<Rightarrow> bool" where
  "params_ok params \<longleftrightarrow>
     par_globalHistoryBits params + par_localHistoryBits params \<le> 64 \<and>
     par_localHistoryBits params < 64 \<and> par_branchAddrBits params < 64 \<and>
     0 < par_globalHistoryBits params + par_localHistoryBits params + par_branchAddrBits params"

text \<open>Every path queue holds exactly its capacity.\<close>

definition path_full :: "PerceptronBP \<Rightarrow> bool" where
  "path_full this \<longleftrightarrow>
     list_all (\<lambda>pt. length pt = max (branchAddrBits this) (history_length this)) (pathTable this)"

text \<open>A snapshot whose path copy was taken from a path queue of a well-formed predictor.\<close>

definition snapshot_ok :: "PerceptronBP \<Rightarrow> BPHistory \<Rightarrow> bool" where
  "snapshot_ok this h \<longleftrightarrow>
     length (bph_path h) = max (branchAddrBits this) (history_length this) \<and>
     list_all (\<lambda>e. unat e \<le> unat (pcMask this)) (bph_path h)"

text \<open>A snapshot as \<^verbatim>\<open>updateHistories\<close> leaves it: the evicted address is recorded.\<close>

definition advanced :: "PerceptronBP \<Rightarrow> BPHistory \<Rightarrow> bool" where
  "advanced this h \<longleftrightarrow>
     bph_branchAddrReplaced h \<and>
     (case bph_branchAddr h of None \<Rightarrow> False | Some a \<Rightarrow> unat a \<le> unat (pcMask this)) \<and>
     unat (bph_new_pc h) \<le> unat (pcMask this) \<and>
     bph_local h AND localMask this = bph_local h"

subsection \<open>Reachable states\<close>

text \<open>
  A snapshot as the member functions leave it on the heap of a well-formed predictor: its
  path copy has the length of a path queue and holds buckets, its own bucket and its local
  history are inside their masks, and when an advance has recorded an eviction the evicted
  address is a bucket.
\<close>

definition snap_inv :: "PerceptronBP \<Rightarrow> BPHistory \<Rightarrow> bool" where
  "snap_inv this h \<longleftrightarrow>
     snapshot_ok this h \<and>
     unat (bph_new_pc h) \<le> unat (pcMask this) \<and>
     bph_local h AND localMask this = bph_local h \<and>
     (bph_branchAddrReplaced h \<longrightarrow>
        (case bph_branchAddr h of None \<Rightarrow> False | Some a \<Rightarrow> unat a \<le> unat (pcMask this)))"

text \<open>Every live cell of the heap holds such a snapshot.\<close>

definition heap_inv :: "PerceptronBP \<Rightarrow> heap \<Rightarrow> bool" where
  "heap_inv this hp \<longleftrightarrow>
     list_all (\<lambda>cell. case cell of None \<Rightarrow> True | Some h \<Rightarrow> snap_inv this h) hp"

text \<open>
  The states that a run of the predictor reaches. The run starts with the constructor, on
  parameters inside the shifts of the code, and an empty heap; every call of \<^verbatim>\<open>lookup\<close>,
  \<^verbatim>\<open>updateHistories\<close> and \<^verbatim>\<open>update\<close> that returns continues it, whatever the arguments
  and in whatever order. \<^verbatim>\<open>squash\<close> continues it when it returns on a snapshot whose
  replaced flag is set, that is, one that went through \<^verbatim>\<open>updateHistories\<close>: on a
  snapshot that never did, \<^verbatim>\<open>squash\<close> erases the front of the path queue and pushes
  nothing back.
\<close>

inductive reachable :: "PerceptronBPParams \<Rightarrow> PerceptronBP \<times> heap \<Rightarrow> bool"
  for params :: PerceptronBPParams where
  constructed:
    "params_ok params \<Longrightarrow> PerceptronBP_new params = Some this \<Longrightarrow> reachable params (this, [])"
| predicted:
    "reachable params (this, hp) \<Longrightarrow> lookup this hp tid pc = Some (this', hp', bp', b) \<Longrightarrow>
     reachable params (this', hp')"
| advanced:
    "reachable params (this, hp) \<Longrightarrow>
     updateHistories this hp tid pc uncond taken bp = Some (this', hp', bp') \<Longrightarrow>
     reachable params (this', hp')"
| trained:
    "reachable params (this, hp) \<Longrightarrow>
     update this hp tid pc taken bp squashed = Some (this', hp', bp') \<Longrightarrow>
     reachable params (this', hp')"
| reverted:
    "reachable params (this, hp) \<Longrightarrow> deref hp p = Some h \<Longrightarrow> bph_branchAddrReplaced h \<Longrightarrow>
     squash this hp tid (Some p) = Some (this', hp', bp') \<Longrightarrow>
     reachable params (this', hp')"

subsection \<open>What the loops compute\<close>

text \<open>The summand of step \<open>j\<close> of a scoring loop.\<close>

definition term_j :: "Addr list \<Rightarrow> cint list list \<Rightarrow> Addr \<Rightarrow> nat \<Rightarrow> cint" where
  "term_j path table reg j =
     (let w = table ! unat (ucast (path ! (j - 1)) :: unsigned) ! j
      in if bit reg (j - 1) then w else - w)"

text \<open>
  What a training loop that starts at step \<open>j\<close> adds to the weight in row \<open>r\<close>, column
  \<open>c\<close>: step \<open>c\<close> moves the weight of the row named by position \<open>c - 1\<close> of the path.
\<close>

definition train_delta :: "Addr list \<Rightarrow> bool \<Rightarrow> Addr \<Rightarrow> nat \<Rightarrow> nat \<Rightarrow> nat \<Rightarrow> nat \<Rightarrow> cint" where
  "train_delta path taken reg n j r c =
     (if j \<le> c \<and> c \<le> n \<and> r = unat (ucast (path ! (c - 1)) :: unsigned)
      then (if taken = bit reg (c - 1) then 1 else - 1)
      else 0)"

text \<open>
  The value of \<^verbatim>\<open>history_reg\<close> in \<^verbatim>\<open>update\<close>, as \<open>update_train\<close> computes it from the
  snapshot: the masked global part shifted up, and \<^verbatim>\<open>local = history->local\<close>, the
  conversion of an \<^verbatim>\<open>int\<close> to an \<^verbatim>\<open>Addr\<close>, which extends the sign.
\<close>

definition snapshot_reg :: "PerceptronBP \<Rightarrow> BPHistory \<Rightarrow> Addr" where
  "snapshot_reg this h =
     push_bit (localHistoryBits this)
       (ucast (bph_globalHistoryReg h AND globalHistoryMask this) :: Addr)
     OR scast (bph_local h)"

subsection \<open>Prediction and advance as the specification words them\<close>

text \<open>
  The bucket, the combined history, the two scores and their total, and the snapshot that
  \<open>predict\<close> returns, written from the steps of the specification (sums over
  \<open>j = 1..n\<close>, the path queue indexed directly). The scores are C++ \<^verbatim>\<open>int\<close> values.
\<close>

definition bucket :: "PerceptronBP \<Rightarrow> Addr \<Rightarrow> Addr" where
  "bucket this address = address AND ucast (pcMask this)"

definition combined_history :: "PerceptronBP \<Rightarrow> nat \<Rightarrow> Addr \<Rightarrow> Addr" where
  "combined_history this thread address =
     (let global = (ucast (globalHistoryReg this ! thread AND globalHistoryMask this) :: Addr);
          local = (ucast (branchHistoryTable this ! unat (bucket this address) AND localMask this)
                     :: Addr)
      in push_bit (localHistoryBits this) global OR local)"

definition spec_y :: "PerceptronBP \<Rightarrow> nat \<Rightarrow> Addr \<Rightarrow> cint" where
  "spec_y this thread address =
     historyWeightTable this ! unat (bucket this address) ! 0 +
     (\<Sum>j\<leftarrow>[1..<Suc (history_length this)].
        let k = unat (pathTable this ! thread ! (j - 1));
            w = historyWeightTable this ! k ! j
        in if bit (combined_history this thread address) (j - 1) then w else - w)"

definition spec_y_addr :: "PerceptronBP \<Rightarrow> nat \<Rightarrow> Addr \<Rightarrow> cint" where
  "spec_y_addr this thread address =
     addrWeightTable this ! unat (bucket this address) ! 0 +
     (\<Sum>j\<leftarrow>[1..<Suc (branchAddrBits this)].
        let k = unat (pathTable this ! thread ! (j - 1));
            w = addrWeightTable this ! k ! j
        in if bit (bucket this address) (j - 1) then w else - w)"

definition spec_y_total :: "PerceptronBP \<Rightarrow> nat \<Rightarrow> Addr \<Rightarrow> cint" where
  "spec_y_total this thread address = spec_y this thread address + spec_y_addr this thread address"

definition predict_snapshot :: "PerceptronBP \<Rightarrow> nat \<Rightarrow> Addr \<Rightarrow> BPHistory" where
  "predict_snapshot this thread address =
     \<lparr>bph_globalHistoryReg = globalHistoryReg this ! thread,
      bph_branchAddr = None,
      bph_local = branchHistoryTable this ! unat (bucket this address) AND localMask this,
      bph_path = pathTable this ! thread,
      bph_new_pc = ucast (bucket this address),
      bph_branchAddrReplaced = False,
      bph_last_y = spec_y_total this thread address\<rparr>"




text \<open>
  \<open>advance\<close> on a full path queue: both registers shift the outcome in, the bucket is
  pushed to the front of the queue and the back entry leaves it.
\<close>

definition advance_state :: "PerceptronBP \<Rightarrow> nat \<Rightarrow> Addr \<Rightarrow> bool \<Rightarrow> PerceptronBP" where
  "advance_state this thread address taken =
     this\<lparr>
       globalHistoryReg := (globalHistoryReg this)
         [thread := (push_bit 1 (globalHistoryReg this ! thread) OR (if taken then 1 else 0))
                    AND globalHistoryMask this],
       branchHistoryTable := (branchHistoryTable this)
         [unat (bucket this address) :=
            (push_bit 1 (branchHistoryTable this ! unat (bucket this address))
               OR (if taken then 1 else 0)) AND localMask this],
       pathTable := (pathTable this)
         [thread := bucket this address # butlast (pathTable this ! thread)]\<rparr>"

text \<open>What \<open>advance\<close> records in the snapshot when it evicts the back of the queue.\<close>

definition evicted :: "PerceptronBP \<Rightarrow> nat \<Rightarrow> BPHistory \<Rightarrow> BPHistory" where
  "evicted this thread h =
     h\<lparr>bph_branchAddr := Some (ucast (last (pathTable this ! thread))),
       bph_branchAddrReplaced := True\<rparr>"

subsection \<open>Training as the specification words it\<close>

text \<open>The condition under which \<open>train\<close> fires: squashed, or the score inside the band.\<close>

definition fires :: "BPHistory \<Rightarrow> bool \<Rightarrow> bool" where
  "fires h squashed \<longleftrightarrow> squashed \<or> (- 64 \<le> sint (bph_last_y h) \<and> sint (bph_last_y h) \<le> 64)"

text \<open>
  The combined history that a snapshot records, formed as the specification forms the
  combined history of a prediction: the recorded global history, masked, in the high-order
  bits and the recorded local history in the low-order bits.
\<close>

definition snapshot_combined_history :: "PerceptronBP \<Rightarrow> BPHistory \<Rightarrow> Addr" where
  "snapshot_combined_history this h =
     push_bit (localHistoryBits this)
       (ucast (bph_globalHistoryReg h AND globalHistoryMask this) :: Addr)
     OR ucast (bph_local h)"

text \<open>
  What one training adds to the weight in row \<open>r\<close>, column \<open>c\<close> of a table: the bias of
  row \<open>b\<close> follows \<open>taken\<close>, and column \<open>c \<ge> 1\<close> moves in the row that position \<open>c - 1\<close>
  of the snapshot's path names, up when \<open>taken\<close> agrees with bit \<open>c - 1\<close> of \<open>reg\<close>.
\<close>

definition weight_delta ::
  "Addr list \<Rightarrow> bool \<Rightarrow> Addr \<Rightarrow> nat \<Rightarrow> nat \<Rightarrow> nat \<Rightarrow> nat \<Rightarrow> cint" where
  "weight_delta path taken reg n b r c =
     (if c = 0 then (if r = b then (if taken then 1 else - 1) else 0)
      else train_delta path taken reg n 1 r c)"

text \<open>The positions at which two tables differ.\<close>

definition changed :: "cint list list \<Rightarrow> cint list list \<Rightarrow> (nat \<times> nat) set" where
  "changed t t' = {(r, c). r < length t \<and> c < length (t ! r) \<and> t' ! r ! c \<noteq> t ! r ! c}"

subsection \<open>A small predictor for concrete runs\<close>

text \<open>
  One thread, one bit of global history, one of local history and one address bit:
  \<open>W_init\<close> is the predictor as constructed, \<open>W_snap\<close> the snapshot that
  \<^verbatim>\<open>lookup(0, 1)\<close> takes of it, \<open>W_adv\<close> and \<open>W_snap_adv\<close> the predictor and the snapshot
  after \<^verbatim>\<open>updateHistories(0, 1, false, true)\<close>, \<open>W_snap_sat\<close> that snapshot with the score
  100 in place of 0, and \<open>W_trained\<close> the predictor after a training by
  \<^verbatim>\<open>update(0, 1, true, squashed)\<close>.
\<close>

definition W_params :: PerceptronBPParams where
  "W_params = \<lparr>par_globalHistoryBits = 1, par_localHistoryBits = 1,
                par_branchAddrBits = 1, par_numThreads = 1\<rparr>"

definition W_init :: PerceptronBP where
  "W_init = \<lparr>globalHistoryReg = [0], globalHistoryBits = 1, globalHistoryMask = 1,
      localMask = 1, pcMask = 1, localHistoryBits = 1, history_length = 2,
      branchAddrBits = 1, branchHistoryTable = [0, 0], pathTable = [[0, 0]],
      historyWeightTable = [[0, 0, 0], [0, 0, 0]],
      addrWeightTable = [[0, 0], [0, 0]]\<rparr>"

definition W_snap :: BPHistory where
  "W_snap = \<lparr>bph_globalHistoryReg = 0, bph_branchAddr = None, bph_local = 0,
      bph_path = [0, 0], bph_new_pc = 1, bph_branchAddrReplaced = False,
      bph_last_y = 0\<rparr>"

definition W_adv :: PerceptronBP where
  "W_adv = W_init\<lparr>globalHistoryReg := [1], branchHistoryTable := [0, 1],
      pathTable := [[1, 0]]\<rparr>"

definition W_snap_adv :: BPHistory where
  "W_snap_adv = W_snap\<lparr>bph_branchAddr := Some 0, bph_branchAddrReplaced := True\<rparr>"

definition W_snap_sat :: BPHistory where
  "W_snap_sat = W_snap_adv\<lparr>bph_last_y := 100\<rparr>"

definition W_trained :: PerceptronBP where
  "W_trained = W_adv\<lparr>historyWeightTable := [[0, - 1, - 1], [1, 0, 0]],
      addrWeightTable := [[0, 1], [1, 0]]\<rparr>"

subsection \<open>A predictor with 32 bits of local history\<close>

text \<open>
  One thread, one bit of global history, 32 bits of local history and no address bit, so
  that every address falls into bucket 0. \<open>L32_init\<close> is the predictor as constructed,
  \<open>L32_first\<close> the snapshot that \<^verbatim>\<open>lookup(0, 0)\<close> takes of it and \<open>L32_advanced\<close> that
  snapshot once \<^verbatim>\<open>updateHistories\<close> has recorded the eviction. \<open>L32_taken\<close> is the
  predictor after the advance of one taken branch and \<open>L32_run k\<close>, for \<open>k \<ge> 1\<close>, the
  predictor after the advances of \<open>k\<close> further branches, not taken. \<open>L32_snap\<close> is the
  snapshot that \<^verbatim>\<open>lookup(0, 0)\<close> takes of \<open>L32_run 31\<close>, and \<open>L32_trained\<close> the predictor
  after \<^verbatim>\<open>update(0, 0, true)\<close> on that snapshot.
\<close>

definition L32_params :: PerceptronBPParams where
  "L32_params = \<lparr>par_globalHistoryBits = 1, par_localHistoryBits = 32,
                  par_branchAddrBits = 0, par_numThreads = 1\<rparr>"

definition L32_init :: PerceptronBP where
  "L32_init = \<lparr>globalHistoryReg = [0], globalHistoryBits = 1, globalHistoryMask = 1,
      localMask = - 1, pcMask = 0, localHistoryBits = 32, history_length = 33,
      branchAddrBits = 0, branchHistoryTable = [0], pathTable = [replicate 33 0],
      historyWeightTable = [replicate 34 0], addrWeightTable = [[0]]\<rparr>"

definition L32_taken :: PerceptronBP where
  "L32_taken = L32_init\<lparr>globalHistoryReg := [1], branchHistoryTable := [1]\<rparr>"

definition L32_run :: "nat \<Rightarrow> PerceptronBP" where
  "L32_run k = L32_init\<lparr>branchHistoryTable := [2 ^ k]\<rparr>"

definition L32_first :: BPHistory where
  "L32_first = \<lparr>bph_globalHistoryReg = 0, bph_branchAddr = None, bph_local = 0,
      bph_path = replicate 33 0, bph_new_pc = 0, bph_branchAddrReplaced = False,
      bph_last_y = 0\<rparr>"

definition L32_advanced :: BPHistory where
  "L32_advanced = L32_first\<lparr>bph_branchAddr := Some 0, bph_branchAddrReplaced := True\<rparr>"

definition L32_snap :: BPHistory where
  "L32_snap = L32_first\<lparr>bph_local := 2 ^ 31\<rparr>"

definition L32_trained :: PerceptronBP where
  "L32_trained = (L32_run 31)\<lparr>historyWeightTable := [1 # replicate 31 (- 1) @ [1, 1]],
      addrWeightTable := [[1]]\<rparr>"

section \<open>Proofs\<close>

subsection \<open>Vectors, the heap and words\<close>

lemma at_Some_iff [simp]: "at xs i = Some x \<longleftrightarrow> i < length xs \<and> xs ! i = x"
  by (auto simp: at_def)

lemma at_None_iff [simp]: "at xs i = None \<longleftrightarrow> length xs \<le> i"
  by (auto simp: at_def)

lemma at_in_range: "i < length xs \<Longrightarrow> at xs i = Some (xs ! i)"
  by (simp add: at_def)

lemma deref_Some_iff: "deref hp p = Some h \<longleftrightarrow> p < length hp \<and> hp ! p = Some h"
  by (auto simp: deref_def)

lemma unat_ucast_32_64: "unat (ucast (m :: 32 word) :: 64 word) = unat m"
  by (simp add: unsigned_ucast_eq take_bit_nat_eq_self order_less_trans [OF unsigned_less])

lemma unat_and_ucast_le: "unat ((pc :: 64 word) AND ucast (m :: 32 word)) \<le> unat m"
proof -
  have "pc AND ucast m \<le> (ucast m :: 64 word)" by (rule word_and_le1)
  then have "unat (pc AND ucast m) \<le> unat (ucast m :: 64 word)" by (simp add: word_le_nat_alt)
  then show ?thesis by (simp add: unat_ucast_32_64)
qed

lemma unat_ucast_64_32:
  assumes "unat (e :: 64 word) \<le> unat (m :: 32 word)"
  shows "unat (ucast e :: 32 word) = unat e"
proof -
  have "unat m < 2 ^ 32" using unsigned_less [of m] by simp
  with assms have "unat e < 2 ^ 32" by simp
  then show ?thesis by (simp add: unsigned_ucast_eq take_bit_nat_eq_self)
qed

lemma ucast_ucast_64_32:
  assumes "unat (e :: 64 word) \<le> unat (m :: 32 word)"
  shows "ucast (ucast e :: 32 word) = e"
proof -
  have "unat (ucast (ucast e :: 32 word) :: 64 word) = unat e"
    using unat_ucast_64_32 [OF assms] by (simp add: unat_ucast_32_64)
  then show ?thesis by (simp only: word_unat_eq_iff)
qed

lemma ucast_ucast_32_64: "(ucast (ucast (x :: 32 word) :: 64 word) :: 32 word) = x"
  by (simp add: ucast_up_ucast_id is_up)

lemma inv_bucket:
  assumes "inv this"
  shows "unat ((pc :: Addr) AND ucast (pcMask this)) < 2 ^ branchAddrBits this"
    and "unat (pc AND ucast (pcMask this)) \<le> unat (pcMask this)"
proof -
  show le: "unat (pc AND ucast (pcMask this)) \<le> unat (pcMask this)"
    by (rule unat_and_ucast_le)
  from assms have "unat (pcMask this) < 2 ^ branchAddrBits this" by (simp add: inv_def)
  with le show "unat (pc AND ucast (pcMask this)) < 2 ^ branchAddrBits this" by simp
qed

lemma inv_path:
  assumes "inv this" "tid < length (globalHistoryReg this)"
  shows "tid < length (pathTable this)"
    and "length (pathTable this ! tid) = max (branchAddrBits this) (history_length this)"
    and "pathTable this ! tid \<noteq> []"
    and "list_all (\<lambda>e. unat e \<le> unat (pcMask this)) (pathTable this ! tid)"
proof -
  from assms show t: "tid < length (pathTable this)" by (simp add: inv_def)
  from assms(1) have "\<forall>pt\<in>set (pathTable this).
      length pt = max (branchAddrBits this) (history_length this) \<and>
      list_all (\<lambda>e. unat e \<le> unat (pcMask this)) pt"
    by (simp add: inv_def list_all_iff)
  with t show l: "length (pathTable this ! tid) = max (branchAddrBits this) (history_length this)"
    and "list_all (\<lambda>e. unat e \<le> unat (pcMask this)) (pathTable this ! tid)"
    by simp_all
  from assms(1) have "0 < max (branchAddrBits this) (history_length this)" by (simp add: inv_def)
  with l show "pathTable this ! tid \<noteq> []" by auto
qed

lemma path_rows:
  assumes "list_all (\<lambda>e. unat e \<le> unat (pcMask this)) (path :: Addr list)" "inv this"
    "i < length path"
  shows "unat (ucast (path ! i) :: unsigned) < 2 ^ branchAddrBits this"
proof -
  from assms(1,3) have le: "unat (path ! i) \<le> unat (pcMask this)" by (simp add: list_all_length)
  from assms(2) have "unat (pcMask this) < 2 ^ branchAddrBits this" by (simp add: inv_def)
  with le show ?thesis by (simp add: unat_ucast_64_32 [OF le])
qed

lemma inv_tables:
  assumes "inv this"
  shows "length (branchHistoryTable this) = 2 ^ branchAddrBits this"
    and "length (historyWeightTable this) = 2 ^ branchAddrBits this"
    and "length (addrWeightTable this) = 2 ^ branchAddrBits this"
    and "\<forall>r<length (historyWeightTable this). length (historyWeightTable this ! r) = history_length this + 1"
    and "\<forall>r<length (addrWeightTable this). length (addrWeightTable this ! r) = branchAddrBits this + 1"
    and "\<forall>r<length (branchHistoryTable this).
           branchHistoryTable this ! r AND localMask this = branchHistoryTable this ! r"
  using assms by (simp_all add: inv_def list_all_length)

lemma inv_widths:
  assumes "inv this"
  shows "history_length this \<le> 64" "localHistoryBits this < 64" "branchAddrBits this < 64"
    "history_length this \<le> max (branchAddrBits this) (history_length this)"
    "branchAddrBits this \<le> max (branchAddrBits this) (history_length this)"
  using assms by (simp_all add: inv_def)

subsection \<open>The loops\<close>

lemma bit_test: "(drop_bit n (w :: 64 word) AND 1 \<noteq> 0) = bit w n"
  by (simp add: and_one_eq bit_iff_odd_drop_bit even_iff_mod_2_eq_zero)

lemma score_loop_sum:
  assumes "n \<le> length path" "n \<le> 64" "1 \<le> j"
    and "\<forall>i<n. unat (ucast (path ! i) :: unsigned) < length table"
    and "\<forall>r<length table. n < length (table ! r)"
  shows "score_loop path table reg n j y =
           Some (y + sum_list (map (term_j path table reg) [j..<Suc n]))"
  using assms(3)
proof (induction d \<equiv> "Suc n - j" arbitrary: j y)
  case 0
  then show ?case by (subst score_loop.simps) simp
next
  case (Suc d)
  then have jn: "j \<le> n" by simp
  let ?k = "unat (ucast (path ! (j - 1)) :: unsigned)"
  from jn assms Suc.prems have b1: "j - 1 < length path" "\<not> 64 \<le> j - 1" "j - 1 < n"
    by auto
  with assms(4) have b2: "?k < length table" by blast
  with assms(5) jn have b3: "j < length (table ! ?k)" by fastforce
  let ?w = "table ! ?k ! j"
  let ?y = "if drop_bit (j - 1) reg AND 1 \<noteq> 0 then y + ?w else y - ?w"
  have step: "score_loop path table reg n j y = score_loop path table reg n (j + 1) ?y"
    using jn b1 b2 b3 by (subst score_loop.simps) (simp add: at_in_range Let_def)
  have ih: "score_loop path table reg n (j + 1) ?y =
              Some (?y + sum_list (map (term_j path table reg) [j + 1..<Suc n]))"
    using Suc.hyps(2) by (intro Suc.hyps(1)) simp_all
  have "[j..<Suc n] = j # [j + 1..<Suc n]" using jn by (simp add: upt_conv_Cons)
  then show ?case
    unfolding step ih by (simp add: term_j_def bit_test Let_def)
qed

lemma bump_Some:
  "r < length t \<Longrightarrow> c < length (t ! r) \<Longrightarrow>
   bump t r c up = Some (t[r := (t ! r)[c := (if up then t ! r ! c + 1 else t ! r ! c - 1)]])"
  by (simp add: bump_def at_in_range)

lemma bump_nth:
  "r < length t \<Longrightarrow> c < length (t ! r) \<Longrightarrow> r' < length t \<Longrightarrow> c' < length (t ! r') \<Longrightarrow>
   t[r := (t ! r)[c := v]] ! r' ! c' = (if r' = r \<and> c' = c then v else t ! r' ! c')"
  by (cases "r' = r") (auto simp: nth_list_update)

lemma bump_row_length:
  "r' < length t \<Longrightarrow> length (t[r := (t ! r)[c := v]] ! r') = length (t ! r')"
  by (cases "r' = r") simp_all

lemma train_delta_step:
  "j \<le> n \<Longrightarrow>
   train_delta path taken reg n j r c =
     (if r = unat (ucast (path ! (j - 1)) :: unsigned) \<and> c = j
      then (if taken = bit reg (j - 1) then 1 else - 1) else 0) +
     train_delta path taken reg n (j + 1) r c"
  by (cases "c = j") (auto simp: train_delta_def)

lemma train_loop_nth:
  assumes "n \<le> length path" "n \<le> 64"
    and "\<forall>i<n. unat (ucast (path ! i) :: unsigned) < length t0"
  shows "1 \<le> j \<Longrightarrow> length t = length t0 \<Longrightarrow> \<forall>r<length t. n < length (t ! r) \<Longrightarrow>
         \<exists>t'. train_loop path taken reg n j t = Some t' \<and> length t' = length t \<and>
              (\<forall>r<length t. length (t' ! r) = length (t ! r)) \<and>
              (\<forall>r c. r < length t \<longrightarrow> c < length (t ! r) \<longrightarrow>
                 t' ! r ! c = t ! r ! c + train_delta path taken reg n j r c)"
proof (induction d \<equiv> "Suc n - j" arbitrary: j t)
  case 0
  then have "\<not> j \<le> n" by simp
  then show ?case by (subst train_loop.simps) (simp add: train_delta_def)
next
  case (Suc d)
  then have jn: "j \<le> n" by simp
  let ?k = "unat (ucast (path ! (j - 1)) :: unsigned)"
  from jn assms Suc.prems have b1: "j - 1 < length path" "\<not> 64 \<le> j - 1" "j - 1 < n"
    by auto
  with assms(3) Suc.prems(2) have b2: "?k < length t" by simp
  with Suc.prems(3) jn have b3: "j < length (t ! ?k)" by fastforce
  let ?up = "taken = (drop_bit (j - 1) reg AND 1 \<noteq> 0)"
  let ?v = "if ?up then t ! ?k ! j + 1 else t ! ?k ! j - 1"
  let ?t1 = "t[?k := (t ! ?k)[j := ?v]]"
  have step: "train_loop path taken reg n j t = train_loop path taken reg n (j + 1) ?t1"
    using jn b1 b2 b3 by (subst train_loop.simps) (simp add: at_in_range Let_def bump_Some)
  have len1: "length ?t1 = length t0" using Suc.prems(2) by simp
  have rows1: "\<forall>r<length ?t1. length (?t1 ! r) = length (t ! r)"
    by (simp add: bump_row_length)
  then have rows1': "\<forall>r<length ?t1. n < length (?t1 ! r)" using Suc.prems(3) by simp
  from Suc.hyps(2) have d: "d = Suc n - (j + 1)" by simp
  from Suc.hyps(1) [OF d _ len1 rows1'] obtain t' where
    t': "train_loop path taken reg n (j + 1) ?t1 = Some t'" "length t' = length ?t1"
      "\<forall>r<length ?t1. length (t' ! r) = length (?t1 ! r)"
      "\<forall>r c. r < length ?t1 \<longrightarrow> c < length (?t1 ! r) \<longrightarrow>
         t' ! r ! c = ?t1 ! r ! c + train_delta path taken reg n (j + 1) r c"
    by auto
  have "t' ! r ! c = t ! r ! c + train_delta path taken reg n j r c"
    if rc: "r < length t" "c < length (t ! r)" for r c
  proof -
    have "t' ! r ! c = ?t1 ! r ! c + train_delta path taken reg n (j + 1) r c"
      using t'(4) rc rows1 by simp
    moreover have "?t1 ! r ! c = (if r = ?k \<and> c = j then ?v else t ! r ! c)"
      using b2 b3 rc by (rule bump_nth)
    ultimately show ?thesis
      by (simp add: train_delta_step [OF jn] bit_test)
  qed
  with t'(1,2,3) rows1 show ?case unfolding step by simp
qed

subsection \<open>lookup on a well-formed predictor\<close>

lemma sum_term_j:
  assumes "list_all (\<lambda>e. unat e \<le> unat (m :: unsigned)) path" "n \<le> length path"
  shows "sum_list (map (term_j path table reg) [1..<Suc n]) =
         (\<Sum>j\<leftarrow>[1..<Suc n]. let k = unat (path ! (j - 1)); w = table ! k ! j
                            in if bit reg (j - 1) then w else - w)"
proof -
  have "term_j path table reg j =
        (let k = unat (path ! (j - 1)); w = table ! k ! j in if bit reg (j - 1) then w else - w)"
    if "j \<in> set [1..<Suc n]" for j
  proof -
    from that assms(2) have "j - 1 < length path" by auto
    with assms(1) have "unat (path ! (j - 1)) \<le> unat m" by (simp add: list_all_length)
    then have "unat (ucast (path ! (j - 1)) :: unsigned) = unat (path ! (j - 1))"
      by (rule unat_ucast_64_32)
    then show ?thesis by (simp add: term_j_def Let_def)
  qed
  then show ?thesis by (intro arg_cong [where f = sum_list] map_cong refl)
qed

lemma score_loop_inv:
  assumes "inv this" "list_all (\<lambda>e. unat e \<le> unat (pcMask this)) path"
    "length path = max (branchAddrBits this) (history_length this)"
    "n \<le> length path" "n \<le> 64" "length table = 2 ^ branchAddrBits this"
    "\<forall>r<length table. length (table ! r) = n + 1"
  shows "score_loop path table reg n 1 y =
           Some (y + (\<Sum>j\<leftarrow>[1..<Suc n]. let k = unat (path ! (j - 1)); w = table ! k ! j
                            in if bit reg (j - 1) then w else - w))"
proof -
  have rows: "\<forall>i<n. unat (ucast (path ! i) :: unsigned) < length table"
    using path_rows [OF assms(2,1)] assms(4,6) by simp
  have cols: "\<forall>r<length table. n < length (table ! r)" using assms(7) by simp
  show ?thesis
    using score_loop_sum [OF assms(4,5) _ rows cols, of 1 reg y] sum_term_j [OF assms(2,4)]
    by simp
qed

lemma lookup_eval:
  assumes "inv this" "tid < length (globalHistoryReg this)"
  shows "lookup this hp tid pc =
           Some (this, hp @ [Some (predict_snapshot this tid pc)], Some (length hp),
                 0 \<le> sint (spec_y_total this tid pc))"
proof -
  let ?pc = "pc AND ucast (pcMask this)"
  note p = inv_path [OF assms]
  note t = inv_tables [OF assms(1)]
  note w = inv_widths [OF assms(1)]
  note b = inv_bucket [OF assms(1), of pc]
  define Yh where "Yh = spec_y this tid pc"
  define Ya where "Ya = spec_y_addr this tid pc"
  have "score_loop (pathTable this ! tid) (historyWeightTable this)
          (combined_history this tid pc) (history_length this) 1
          (historyWeightTable this ! unat ?pc ! 0) = Some Yh"
    unfolding Yh_def spec_y_def bucket_def
    using p w t by (intro score_loop_inv [OF assms(1)]) simp_all
  then have s1: "score_loop (pathTable this ! tid) (historyWeightTable this)
          (push_bit (localHistoryBits this)
             (ucast (globalHistoryReg this ! tid AND globalHistoryMask this))
           OR ucast (branchHistoryTable this ! unat ?pc AND localMask this))
          (history_length this) (Suc 0)
          (historyWeightTable this ! unat ?pc ! 0) = Some Yh"
    by (simp add: combined_history_def bucket_def Let_def)
  have "score_loop (pathTable this ! tid) (addrWeightTable this)
          (bucket this pc) (branchAddrBits this) 1
          (addrWeightTable this ! unat ?pc ! 0) = Some Ya"
    unfolding Ya_def spec_y_addr_def bucket_def
    using p w t by (intro score_loop_inv [OF assms(1)]) simp_all
  then have s2: "score_loop (pathTable this ! tid) (addrWeightTable this)
          ?pc (branchAddrBits this) (Suc 0)
          (addrWeightTable this ! unat ?pc ! 0) = Some Ya"
    by (simp add: bucket_def)
  have rng: "at (globalHistoryReg this) tid = Some (globalHistoryReg this ! tid)"
    "at (branchHistoryTable this) (unat ?pc) = Some (branchHistoryTable this ! unat ?pc)"
    "at (historyWeightTable this) (unat ?pc) = Some (historyWeightTable this ! unat ?pc)"
    "at (historyWeightTable this ! unat ?pc) 0 = Some (historyWeightTable this ! unat ?pc ! 0)"
    "at (addrWeightTable this) (unat ?pc) = Some (addrWeightTable this ! unat ?pc)"
    "at (addrWeightTable this ! unat ?pc) 0 = Some (addrWeightTable this ! unat ?pc ! 0)"
    "at (pathTable this) tid = Some (pathTable this ! tid)"
    using assms(2) p(1) t b(1) by (simp_all add: at_in_range)
  have l: "\<not> 64 \<le> localHistoryBits this" using w by simp
  have snap: "predict_snapshot this tid pc =
      \<lparr>bph_globalHistoryReg = globalHistoryReg this ! tid,
       bph_branchAddr = None,
       bph_local = branchHistoryTable this ! unat ?pc AND localMask this,
       bph_path = pathTable this ! tid,
       bph_new_pc = ucast ?pc,
       bph_branchAddrReplaced = False,
       bph_last_y = Ya + Yh\<rparr>"
    by (simp add: predict_snapshot_def spec_y_total_def Yh_def Ya_def bucket_def add.commute)
  have tot: "spec_y_total this tid pc = Ya + Yh"
    by (simp add: spec_y_total_def Yh_def Ya_def add.commute)
  show ?thesis
    unfolding lookup_def Let_def snap tot
    by (simp add: rng l s1 s2 new_BPHistory_def ucast_ucast_32_64)
qed

subsection \<open>updateHistories and squash on a well-formed predictor\<close>

lemma updateHistories_eval:
  assumes "inv this" "tid < length (globalHistoryReg this)" "deref hp p = Some h"
  shows "updateHistories this hp tid pc False taken (Some p) =
           Some (advance_state this tid pc taken, hp[p := Some (evicted this tid h)], Some p)"
proof -
  note pt = inv_path [OF assms(1,2)]
  note t = inv_tables [OF assms(1)]
  note b = inv_bucket [OF assms(1), of pc]
  have rng: "at (globalHistoryReg this) tid = Some (globalHistoryReg this ! tid)"
    "at (branchHistoryTable this) (unat (pc AND ucast (pcMask this))) =
       Some (branchHistoryTable this ! unat (pc AND ucast (pcMask this)))"
    "at (pathTable this) tid = Some (pathTable this ! tid)"
    using assms(2) pt(1) t b(1) by (simp_all add: at_in_range)
  show ?thesis
    unfolding updateHistories_def Let_def
    by (simp add: rng pt(2,3) assms(3) advance_state_def evicted_def bucket_def)
qed

lemma updateHistories_eval_uncond:
  assumes "inv this" "tid < length (globalHistoryReg this)"
  shows "updateHistories this hp tid pc True taken bp0 =
           Some (advance_state this tid pc taken,
                 hp @ [Some (evicted this tid ((predict_snapshot this tid pc)\<lparr>bph_last_y := 0\<rparr>))],
                 Some (length hp))"
proof -
  note pt = inv_path [OF assms(1,2)]
  note t = inv_tables [OF assms(1)]
  note b = inv_bucket [OF assms(1), of pc]
  have rng: "at (globalHistoryReg this) tid = Some (globalHistoryReg this ! tid)"
    "at (branchHistoryTable this) (unat (pc AND ucast (pcMask this))) =
       Some (branchHistoryTable this ! unat (pc AND ucast (pcMask this)))"
    "at (pathTable this) tid = Some (pathTable this ! tid)"
    using assms(2) pt(1) t b(1) by (simp_all add: at_in_range)
  show ?thesis
    unfolding updateHistories_def Let_def
    by (simp add: rng pt(2,3) advance_state_def evicted_def bucket_def new_BPHistory_def
        deref_def predict_snapshot_def)
qed

lemma inv_advance_state:
  assumes "inv this" "tid < length (globalHistoryReg this)"
  shows "inv (advance_state this tid pc taken)"
proof -
  note pt = inv_path [OF assms(1,2)]
  note b = inv_bucket [OF assms(1), of pc]
  let ?new = "bucket this pc # butlast (pathTable this ! tid)"
  have len: "length ?new = max (branchAddrBits this) (history_length this)"
    using pt(2,3) by (cases "pathTable this ! tid") auto
  have "set (butlast (pathTable this ! tid)) \<subseteq> set (pathTable this ! tid)"
    by (auto dest: in_set_butlastD)
  with pt(4) b(2) have ent: "list_all (\<lambda>e. unat e \<le> unat (pcMask this)) ?new"
    by (auto simp: list_all_iff bucket_def)
  have paths: "list_all (\<lambda>pt. length pt = max (branchAddrBits this) (history_length this) \<and>
                     list_all (\<lambda>e. unat e \<le> unat (pcMask this)) pt)
                 ((pathTable this)[tid := ?new])"
    using assms(1) len ent
    by (auto simp: inv_def list_all_iff dest!: set_update_subset_insert [THEN subsetD])
  have bht: "list_all (\<lambda>b. b AND localMask this = b)
               ((branchHistoryTable this)[i := x AND localMask this])" for i x
    using assms(1)
    by (auto simp: inv_def list_all_iff and.assoc dest!: set_update_subset_insert [THEN subsetD])
  show ?thesis
    using assms(1) paths bht by (simp add: inv_def advance_state_def)
qed

lemma advance_state_frame:
  "length (globalHistoryReg (advance_state this tid pc taken)) = length (globalHistoryReg this)"
  "historyWeightTable (advance_state this tid pc taken) = historyWeightTable this"
  "addrWeightTable (advance_state this tid pc taken) = addrWeightTable this"
  "pcMask (advance_state this tid pc taken) = pcMask this"
  "localMask (advance_state this tid pc taken) = localMask this"
  "branchAddrBits (advance_state this tid pc taken) = branchAddrBits this"
  "history_length (advance_state this tid pc taken) = history_length this"
  by (simp_all add: advance_state_def)

lemma evicted_fields [simp]:
  "bph_branchAddrReplaced (evicted this tid h)"
  "bph_branchAddr (evicted this tid h) = Some (ucast (last (pathTable this ! tid)))"
  "bph_globalHistoryReg (evicted this tid h) = bph_globalHistoryReg h"
  "bph_local (evicted this tid h) = bph_local h"
  "bph_path (evicted this tid h) = bph_path h"
  "bph_new_pc (evicted this tid h) = bph_new_pc h"
  "bph_last_y (evicted this tid h) = bph_last_y h"
  by (simp_all add: evicted_def)

lemma squash_advance_state:
  assumes "inv this" "tid < length (globalHistoryReg this)" "deref hp p = Some h"
    and "bph_globalHistoryReg h = globalHistoryReg this ! tid"
    and "bph_local h = branchHistoryTable this ! unat (bucket this pc) AND localMask this"
    and "bph_new_pc h = ucast (bucket this pc)"
  shows "squash (advance_state this tid pc taken) (hp[p := Some (evicted this tid h)]) tid (Some p) =
           Some (this, hp[p := None], None)"
proof -
  note pt = inv_path [OF assms(1,2)]
  note t = inv_tables [OF assms(1)]
  note b = inv_bucket [OF assms(1), of pc]
  let ?b = "unat (bucket this pc)"
  from assms(3) have p: "p < length hp" by (simp add: deref_Some_iff)
  have newpc: "unat (bph_new_pc h) = ?b"
    using b(2) by (simp add: assms(6) bucket_def unat_ucast_64_32)
  have bb: "?b < length (branchHistoryTable this)" using b(1) t(1) by (simp add: bucket_def)
  have loc: "bph_local h = branchHistoryTable this ! ?b"
    using t(6) bb by (simp add: assms(5))
  from pt(4,3) have "unat (last (pathTable this ! tid)) \<le> unat (pcMask this)"
    by (simp add: list_all_iff)
  then have lst: "(ucast (ucast (last (pathTable this ! tid)) :: unsigned) :: Addr) =
      last (pathTable this ! tid)"
    by (rule ucast_ucast_64_32)
  have path: "butlast (pathTable this ! tid) @ [last (pathTable this ! tid)] = pathTable this ! tid"
    using pt(3) by simp
  have rng: "at (globalHistoryReg (advance_state this tid pc taken)) tid =
      Some (globalHistoryReg (advance_state this tid pc taken) ! tid)"
    "at (branchHistoryTable (advance_state this tid pc taken)) ?b =
      Some (branchHistoryTable (advance_state this tid pc taken) ! ?b)"
    "at (pathTable (advance_state this tid pc taken)) tid =
      Some (bucket this pc # butlast (pathTable this ! tid))"
    using assms(2) pt(1) bb by (simp_all add: at_in_range advance_state_def)
  have d: "deref (hp[p := Some (evicted this tid h)]) p = Some (evicted this tid h)"
    using p by (simp add: deref_def)
  have st: "advance_state this tid pc taken
      \<lparr>globalHistoryReg := (globalHistoryReg (advance_state this tid pc taken))
          [tid := globalHistoryReg this ! tid],
        branchHistoryTable := (branchHistoryTable (advance_state this tid pc taken))
          [?b := branchHistoryTable this ! ?b],
        pathTable := (pathTable (advance_state this tid pc taken))
          [tid := pathTable this ! tid]\<rparr> = this"
    by (simp add: advance_state_def)
  show ?thesis
    unfolding squash_def Let_def
    by (simp add: d rng newpc lst path assms(4) loc st delete_BPHistory_def)
qed

subsection \<open>update on a well-formed predictor\<close>

lemma bump_train_loop:
  assumes "n \<le> length path" "n \<le> 64" "1 \<le> n + 1"
    and rows: "\<forall>i<n. unat (ucast (path ! i) :: unsigned) < length t"
    and cols: "\<forall>r<length t. length (t ! r) = n + 1"
    and b: "b < length t"
  shows "\<exists>t0 t'. bump t b 0 taken = Some t0 \<and>
           train_loop path taken reg n 1 t0 = Some t' \<and> length t' = length t \<and>
           (\<forall>r<length t. length (t' ! r) = n + 1) \<and>
           (\<forall>r c. r < length t \<longrightarrow> c \<le> n \<longrightarrow>
              t' ! r ! c = t ! r ! c + weight_delta path taken reg n b r c)"
proof -
  let ?v = "if taken then t ! b ! 0 + 1 else t ! b ! 0 - 1"
  let ?t0 = "t[b := (t ! b)[0 := ?v]]"
  from cols b have c0: "0 < length (t ! b)" by simp
  have bump: "bump t b 0 taken = Some ?t0" using b c0 by (rule bump_Some)
  have len0: "length ?t0 = length t" by simp
  have rows0: "\<forall>r<length ?t0. length (?t0 ! r) = length (t ! r)"
    by (simp add: bump_row_length)
  with cols have cols0: "\<forall>r<length ?t0. n < length (?t0 ! r)" by simp
  from train_loop_nth [OF assms(1,2) rows _ len0 cols0, of 1 taken reg] obtain t' where
    t': "train_loop path taken reg n 1 ?t0 = Some t'" "length t' = length ?t0"
      "\<forall>r<length ?t0. length (t' ! r) = length (?t0 ! r)"
      "\<forall>r c. r < length ?t0 \<longrightarrow> c < length (?t0 ! r) \<longrightarrow>
         t' ! r ! c = ?t0 ! r ! c + train_delta path taken reg n 1 r c"
    by auto
  have val: "t' ! r ! c = t ! r ! c + weight_delta path taken reg n b r c"
    if rc: "r < length t" "c \<le> n" for r c
  proof -
    from rc cols have c: "c < length (t ! r)" by simp
    with rc rows0 have "t' ! r ! c = ?t0 ! r ! c + train_delta path taken reg n 1 r c"
      using t'(4) by simp
    moreover have "?t0 ! r ! c = (if r = b \<and> c = 0 then ?v else t ! r ! c)"
      using b c0 rc(1) c by (rule bump_nth)
    ultimately show ?thesis
      by (auto simp: weight_delta_def train_delta_def)
  qed
  from t'(3) rows0 cols have "\<forall>r<length t. length (t' ! r) = n + 1" by simp
  with bump t'(1,2) val show ?thesis by auto
qed

lemma update_train_eval:
  assumes "inv this" "snapshot_ok this h"
  shows "\<exists>hw aw.
     update_train this h (bucket this pc) taken =
       Some (this\<lparr>historyWeightTable := hw, addrWeightTable := aw\<rparr>) \<and>
     length hw = 2 ^ branchAddrBits this \<and>
     (\<forall>r<length hw. length (hw ! r) = history_length this + 1) \<and>
     length aw = 2 ^ branchAddrBits this \<and>
     (\<forall>r<length aw. length (aw ! r) = branchAddrBits this + 1) \<and>
     (\<forall>r c. r < 2 ^ branchAddrBits this \<longrightarrow> c \<le> history_length this \<longrightarrow>
        hw ! r ! c = historyWeightTable this ! r ! c +
          weight_delta (bph_path h) taken (snapshot_reg this h) (history_length this)
            (unat (bucket this pc)) r c) \<and>
     (\<forall>r c. r < 2 ^ branchAddrBits this \<longrightarrow> c \<le> branchAddrBits this \<longrightarrow>
        aw ! r ! c = addrWeightTable this ! r ! c +
          weight_delta (bph_path h) taken (bucket this pc) (branchAddrBits this)
            (unat (bucket this pc)) r c)"
proof -
  note t = inv_tables [OF assms(1)]
  note w = inv_widths [OF assms(1)]
  note b = inv_bucket [OF assms(1), of pc]
  from assms(2) have len: "length (bph_path h) = max (branchAddrBits this) (history_length this)"
    and ent: "list_all (\<lambda>e. unat e \<le> unat (pcMask this)) (bph_path h)"
    by (simp_all add: snapshot_ok_def)
  have rows: "\<forall>i<length (bph_path h). unat (ucast (bph_path h ! i) :: unsigned) < 2 ^ branchAddrBits this"
    using path_rows [OF ent assms(1)] by simp
  have bb: "unat (bucket this pc) < 2 ^ branchAddrBits this" using b(1) by (simp add: bucket_def)
  from bump_train_loop [of "history_length this" "bph_path h" "historyWeightTable this"
      "unat (bucket this pc)" taken "snapshot_reg this h"]
  obtain hw0 hw where hw:
      "bump (historyWeightTable this) (unat (bucket this pc)) 0 taken = Some hw0"
      "train_loop (bph_path h) taken (snapshot_reg this h) (history_length this) 1 hw0 = Some hw"
      "length hw = length (historyWeightTable this)"
      "\<forall>r<length (historyWeightTable this). length (hw ! r) = history_length this + 1"
      "\<forall>r c. r < length (historyWeightTable this) \<longrightarrow> c \<le> history_length this \<longrightarrow>
         hw ! r ! c = historyWeightTable this ! r ! c +
           weight_delta (bph_path h) taken (snapshot_reg this h) (history_length this)
             (unat (bucket this pc)) r c"
    using len w t rows bb by auto
  from bump_train_loop [of "branchAddrBits this" "bph_path h" "addrWeightTable this"
      "unat (bucket this pc)" taken "bucket this pc"]
  obtain aw0 aw where aw:
      "bump (addrWeightTable this) (unat (bucket this pc)) 0 taken = Some aw0"
      "train_loop (bph_path h) taken (bucket this pc) (branchAddrBits this) 1 aw0 = Some aw"
      "length aw = length (addrWeightTable this)"
      "\<forall>r<length (addrWeightTable this). length (aw ! r) = branchAddrBits this + 1"
      "\<forall>r c. r < length (addrWeightTable this) \<longrightarrow> c \<le> branchAddrBits this \<longrightarrow>
         aw ! r ! c = addrWeightTable this ! r ! c +
           weight_delta (bph_path h) taken (bucket this pc) (branchAddrBits this)
             (unat (bucket this pc)) r c"
    using len w t rows bb by auto
  have l: "\<not> 64 \<le> localHistoryBits this" using w by simp
  have "update_train this h (bucket this pc) taken =
       Some (this\<lparr>historyWeightTable := hw, addrWeightTable := aw\<rparr>)"
    unfolding update_train_def Let_def
    using hw(1,2) aw(1,2) l by (simp add: snapshot_reg_def)
  with hw(3,4,5) aw(3,4,5) t(2,3) show ?thesis by (intro exI conjI) simp_all 
qed

subsection \<open>Successful calls, taken apart\<close>

lemma update_Some:
  "update this hp tid pc taken bp squashed = Some (this', hp', bp') \<longleftrightarrow>
     (\<exists>p history. bp = Some p \<and> deref hp p = Some history \<and>
        (if squashed \<or> (sint (bph_last_y history) \<le> 64 \<and> sint (bph_last_y history) \<ge> - 64)
         then update_train this history (pc AND ucast (pcMask this)) taken
         else Some this) = Some this' \<and>
        hp' = (if squashed then hp else hp[p := None]) \<and>
        bp' = (if squashed then bp else None))"
  unfolding update_def Let_def delete_BPHistory_def bind_eq_Some_conv
  by (cases squashed) auto

lemma update_train_Some:
  "update_train this history new_pc taken = Some this' \<longleftrightarrow>
     localHistoryBits this < 64 \<and>
     (\<exists>hw0 hw aw0 aw.
        bump (historyWeightTable this) (unat new_pc) 0 taken = Some hw0 \<and>
        train_loop (bph_path history) taken
          (push_bit (localHistoryBits this)
             (ucast (bph_globalHistoryReg history AND globalHistoryMask this) :: Addr)
           OR scast (bph_local history))
          (history_length this) 1 hw0 = Some hw \<and>
        bump (addrWeightTable this) (unat new_pc) 0 taken = Some aw0 \<and>
        train_loop (bph_path history) taken new_pc (branchAddrBits this) 1 aw0 = Some aw \<and>
        this' = this\<lparr>historyWeightTable := hw, addrWeightTable := aw\<rparr>)"
  unfolding update_train_def Let_def bind_eq_Some_conv
  by (cases "64 \<le> localHistoryBits this") auto

lemma lookup_SomeD:
  assumes "lookup this hp tid pc = Some (this', hp', bp, b)"
  shows "this' = this \<and>
         (\<exists>s. hp' = hp @ [Some s] \<and> bp = Some (length hp) \<and>
              (\<forall>hp2. lookup this hp2 tid pc = Some (this, hp2 @ [Some s], Some (length hp2), b)))"
  using assms
  unfolding lookup_def Let_def new_BPHistory_def
  by (simp split: bind_splits if_splits)

lemma update_SomeD:
  assumes "update this hp tid pc taken bp squashed = Some (this', hp', bp')"
  shows "globalHistoryReg this' = globalHistoryReg this \<and>
         branchHistoryTable this' = branchHistoryTable this \<and>
         pathTable this' = pathTable this \<and>
         this' = this\<lparr>historyWeightTable := historyWeightTable this',
                       addrWeightTable := addrWeightTable this'\<rparr> \<and>
         (\<exists>p. bp = Some p \<and> hp' = (if squashed then hp else delete_BPHistory hp p))"
proof -
  from assms obtain p h where
    p: "bp = Some p" "hp' = (if squashed then hp else hp[p := None])" and
    t: "(if squashed \<or> (sint (bph_last_y h) \<le> 64 \<and> sint (bph_last_y h) \<ge> - 64)
         then update_train this h (pc AND ucast (pcMask this)) taken
         else Some this) = Some this'"
    by (auto simp: update_Some)
  have "this' = this\<lparr>historyWeightTable := historyWeightTable this',
                       addrWeightTable := addrWeightTable this'\<rparr>"
  proof (cases "squashed \<or> (sint (bph_last_y h) \<le> 64 \<and> sint (bph_last_y h) \<ge> - 64)")
    case True
    with t obtain hw aw where "this' = this\<lparr>historyWeightTable := hw, addrWeightTable := aw\<rparr>"
      by (auto simp: update_train_Some)
    then show ?thesis by simp
  next
    case False
    with t show ?thesis by simp
  qed
  then have "globalHistoryReg this' = globalHistoryReg this \<and>
         branchHistoryTable this' = branchHistoryTable this \<and>
         pathTable this' = pathTable this \<and>
         this' = this\<lparr>historyWeightTable := historyWeightTable this',
                       addrWeightTable := addrWeightTable this'\<rparr>"
    by (metis PerceptronBP.select_convs(1,9,10) PerceptronBP.surjective
        PerceptronBP.update_convs(11,12))
  with p show ?thesis by (simp add: delete_BPHistory_def)
qed

lemma squash_SomeD:
  assumes "squash this hp tid bp = Some (this', hp', bp')"
  shows "\<exists>p h. bp = Some p \<and> deref hp p = Some h \<and> hp' = hp[p := None] \<and> bp' = None \<and>
           tid < length (globalHistoryReg this) \<and> tid < length (pathTable this) \<and>
           (bph_branchAddrReplaced h \<longrightarrow> (\<exists>a. bph_branchAddr h = Some a)) \<and>
           this' = this\<lparr>
             globalHistoryReg := (globalHistoryReg this)[tid := bph_globalHistoryReg h],
             branchHistoryTable := (branchHistoryTable this)
               [unat (bph_new_pc h) := bph_local h],
             pathTable := (pathTable this)
               [tid := (if pathTable this ! tid \<noteq> [] then tl (pathTable this ! tid)
                        else pathTable this ! tid) @
                       (if bph_branchAddrReplaced h then [ucast (the (bph_branchAddr h))] else [])]\<rparr>"
proof -
  from assms obtain p where p: "bp = Some p"
    by (cases bp) (simp_all add: squash_def)
  from assms p obtain h where h: "deref hp p = Some h"
    by (cases "deref hp p") (simp_all add: squash_def)
  from assms have r: "tid < length (globalHistoryReg this)"
    "unat (bph_new_pc h) < length (branchHistoryTable this)" "tid < length (pathTable this)"
    by (simp_all add: squash_def p h Let_def bind_eq_Some_conv)
  have rng: "at (globalHistoryReg this) tid = Some (globalHistoryReg this ! tid)"
    "at (branchHistoryTable this) (unat (bph_new_pc h)) =
       Some (branchHistoryTable this ! unat (bph_new_pc h))"
    "at (pathTable this) tid = Some (pathTable this ! tid)"
    using r by (simp_all add: at_in_range)
  show ?thesis
  proof (cases "bph_branchAddrReplaced h")
    case False
    with assms show ?thesis
      by (simp add: squash_def p h rng Let_def delete_BPHistory_def r)
  next
    case True
    with assms obtain a where a: "bph_branchAddr h = Some a"
      by (cases "bph_branchAddr h") (simp_all add: squash_def p h rng Let_def)
    with True assms show ?thesis
      by (simp add: squash_def p h rng Let_def delete_BPHistory_def r)
  qed
qed

lemma updateHistories_full:
  assumes "updateHistories this hp tid pc uncond taken bp0 = Some (this', hp', bp')"
    and "path_full this"
  shows "tid < length (pathTable this) \<and> pathTable this ! tid \<noteq> [] \<and>
         this' = advance_state this tid pc taken \<and>
         (\<exists>p h. bp' = Some p \<and> deref hp' p = Some h \<and> bph_branchAddrReplaced h \<and>
                 bph_branchAddr h = Some (ucast (last (pathTable this ! tid))))"
proof -
  let ?b = "pc AND ucast (pcMask this)"
  from assms(1) have r: "tid < length (globalHistoryReg this)"
    "unat ?b < length (branchHistoryTable this)" "tid < length (pathTable this)"
    by (simp_all add: updateHistories_def Let_def bind_eq_Some_conv)
  with assms(2) have full: "length (pathTable this ! tid) =
      max (branchAddrBits this) (history_length this)"
    by (simp add: path_full_def list_all_length)
  have rng: "at (globalHistoryReg this) tid = Some (globalHistoryReg this ! tid)"
    "at (branchHistoryTable this) (unat ?b) = Some (branchHistoryTable this ! unat ?b)"
    "at (pathTable this) tid = Some (pathTable this ! tid)"
    using r by (simp_all add: at_in_range)
  show ?thesis
  proof (cases uncond)
    case True
    show ?thesis
    proof (cases "pathTable this ! tid = []")
      case True
      with assms(1) \<open>uncond\<close> show ?thesis
        by (simp add: updateHistories_def Let_def rng full [symmetric] new_BPHistory_def deref_def)
    next
      case False
      with assms(1) \<open>uncond\<close> have
        "this' = advance_state this tid pc taken \<and> bp' = Some (length hp) \<and>
         hp' = hp @ [Some \<lparr>
                    bph_globalHistoryReg = globalHistoryReg this ! tid,
                    bph_branchAddr = Some (ucast (last (pathTable this ! tid))),
                    bph_local = branchHistoryTable this ! unat ?b AND localMask this,
                    bph_path = pathTable this ! tid,
                    bph_new_pc = ucast ?b,
                    bph_branchAddrReplaced = True,
                    bph_last_y = 0 \<rparr>]"
        by (simp add: updateHistories_def Let_def rng full new_BPHistory_def deref_def
            advance_state_def bucket_def)
      with False r(3) show ?thesis by (simp add: deref_def)
    qed
  next
    case False
    note cond = this
    show ?thesis
    proof (cases bp0)
      case None
      with assms(1) cond show ?thesis
        by (simp add: updateHistories_def Let_def rng full)
    next
      case (Some p)
      show ?thesis
      proof (cases "deref hp p")
        case None
        with assms(1) cond Some show ?thesis
          by (simp add: updateHistories_def Let_def rng full)
      next
        case (Some h)
        note h = this
        show ?thesis
        proof (cases "pathTable this ! tid = []")
          case True
          with assms(1) cond \<open>bp0 = Some p\<close> h show ?thesis
            by (simp add: updateHistories_def Let_def rng full [symmetric])
        next
          case False
          with assms(1) cond \<open>bp0 = Some p\<close> h have
            "this' = advance_state this tid pc taken \<and> bp' = Some p \<and>
             hp' = hp[p := Some (evicted this tid h)]"
            by (simp add: updateHistories_def Let_def rng full advance_state_def bucket_def
                evicted_def)
          moreover from h have "p < length hp" by (simp add: deref_Some_iff)
          ultimately show ?thesis using False r(3) by (simp add: deref_def)
        qed
      qed
    qed
  qed
qed

lemma path_full_advance_state:
  assumes "path_full this" "tid < length (pathTable this)" "pathTable this ! tid \<noteq> []"
  shows "path_full (advance_state this tid pc taken)"
proof -
  from assms(1,2) have "length (pathTable this ! tid) =
      max (branchAddrBits this) (history_length this)"
    by (simp add: path_full_def list_all_length)
  with assms(3) have "length (bucket this pc # butlast (pathTable this ! tid)) =
      max (branchAddrBits this) (history_length this)"
    by (cases "pathTable this ! tid") auto
  with assms(1) show ?thesis
    by (auto simp: path_full_def advance_state_def list_all_iff
        dest!: set_update_subset_insert [THEN subsetD])
qed

lemma path_full_squash:
  assumes "squash this hp tid (Some p) = Some (this', hp', bp')" "path_full this"
    "deref hp p = Some h" "bph_branchAddrReplaced h" "pathTable this ! tid \<noteq> []"
  shows "path_full this'"
proof -
  define a where "a = the (bph_branchAddr h)"
  from squash_SomeD [OF assms(1)] assms(3,4,5) have
    t: "tid < length (pathTable this)" and
    this': "this' = this\<lparr>
           globalHistoryReg := (globalHistoryReg this)[tid := bph_globalHistoryReg h],
           branchHistoryTable := (branchHistoryTable this)
             [unat (bph_new_pc h) := bph_local h],
           pathTable := (pathTable this)[tid := tl (pathTable this ! tid) @ [ucast a]]\<rparr>"
    by (auto simp: a_def)
  from assms(5) have "length (tl (pathTable this ! tid) @ [ucast a :: Addr]) =
      length (pathTable this ! tid)"
    by (cases "pathTable this ! tid") auto
  with assms(2) t show ?thesis
    unfolding this'
    by (auto simp: path_full_def list_all_iff dest!: set_update_subset_insert [THEN subsetD])
qed

lemma unat_mask_32_less: "unat (mask a :: 32 word) < 2 ^ a"
proof -
  have p: "(2::int) ^ min 32 a \<le> 2 ^ a" by (rule power_increasing) simp_all
  have "uint (mask a :: 32 word) = (mask (min 32 a) :: int)"
    by (simp only: uint_mask_eq) simp
  moreover have "(mask (min 32 a) :: int) = 2 ^ min 32 a - 1"
    by (rule mask_eq_exp_minus_1)
  ultimately have "uint (mask a :: 32 word) < 2 ^ a"
    using p by linarith
  then have "int (unat (mask a :: 32 word)) < int (2 ^ a)" by simp
  then show ?thesis by (simp only: of_nat_less_iff)
qed

lemma unat_makeMask: 
  assumes "a < 64"
  shows "unat (ucast (makeMask a) :: 32 word) < 2 ^ a"
proof -
  have "unat (ucast (mask a :: 64 word) :: 32 word) < 2 ^ a"
  proof -
    have "ucast (mask a :: 64 word) = (mask a :: 32 word)" using assms by (simp add: ucast_mask_eq)
    then show ?thesis by (simp add: unat_mask_32_less)
  qed
  moreover have "push_bit a 1 - 1 = (mask a :: 64 word)" by (simp add: mask_eq_decr_exp push_bit_eq_mult)
  ultimately show ?thesis using assms by (simp add: makeMask_def)
qed

subsection \<open>The constructor\<close>

lemma PerceptronBP_new_inv:
  assumes "params_ok params"
  shows "\<exists>this. PerceptronBP_new params = Some this \<and> inv this \<and>
           length (globalHistoryReg this) = par_numThreads params"
proof -
  let ?g = "par_globalHistoryBits params" and ?l = "par_localHistoryBits params"
    and ?a = "par_branchAddrBits params"
  from assms have b: "?g + ?l \<le> 64" "?l < 64" "?a < 64" "0 < ?g + ?l + ?a"
    by (simp_all add: params_ok_def)
  then have h: "(?g + ?l) mod 2 ^ 32 = ?g + ?l" "(?g + ?l + 1) mod 2 ^ 32 = ?g + ?l + 1"
    "(?a + 1) mod 2 ^ 32 = ?a + 1"
    by simp_all
  have m: "unat (ucast (makeMask ?a) :: 32 word) < 2 ^ ?a" using b(3) by (rule unat_makeMask)
  from b(4) have mx: "0 < max ?a (?g + ?l)" by arith
  show ?thesis
    using b(1,2,3) m mx by (simp add: PerceptronBP_new_def Let_def h inv_def list_all_length)
qed

lemma update_eval:
  assumes "inv this" "deref hp p = Some h" "snapshot_ok this h"
  shows "\<exists>hw aw.
     update this hp tid pc taken (Some p) squashed =
       Some (if fires h squashed
             then this\<lparr>historyWeightTable := hw, addrWeightTable := aw\<rparr> else this,
             if squashed then hp else hp[p := None],
             if squashed then Some p else None) \<and>
     length hw = 2 ^ branchAddrBits this \<and>
     (\<forall>r<length hw. length (hw ! r) = history_length this + 1) \<and>
     length aw = 2 ^ branchAddrBits this \<and>
     (\<forall>r<length aw. length (aw ! r) = branchAddrBits this + 1) \<and>
     (\<forall>r c. r < 2 ^ branchAddrBits this \<longrightarrow> c \<le> history_length this \<longrightarrow>
        hw ! r ! c = historyWeightTable this ! r ! c +
          weight_delta (bph_path h) taken (snapshot_reg this h) (history_length this)
            (unat (bucket this pc)) r c) \<and>
     (\<forall>r c. r < 2 ^ branchAddrBits this \<longrightarrow> c \<le> branchAddrBits this \<longrightarrow>
        aw ! r ! c = addrWeightTable this ! r ! c +
          weight_delta (bph_path h) taken (bucket this pc) (branchAddrBits this)
            (unat (bucket this pc)) r c)"
proof -
  from update_train_eval [OF assms(1,3), of pc taken] obtain hw aw where
    tr: "update_train this h (bucket this pc) taken =
       Some (this\<lparr>historyWeightTable := hw, addrWeightTable := aw\<rparr>)"
    and rest: "length hw = 2 ^ branchAddrBits this \<and>
     (\<forall>r<length hw. length (hw ! r) = history_length this + 1) \<and>
     length aw = 2 ^ branchAddrBits this \<and>
     (\<forall>r<length aw. length (aw ! r) = branchAddrBits this + 1) \<and>
     (\<forall>r c. r < 2 ^ branchAddrBits this \<longrightarrow> c \<le> history_length this \<longrightarrow>
        hw ! r ! c = historyWeightTable this ! r ! c +
          weight_delta (bph_path h) taken (snapshot_reg this h) (history_length this)
            (unat (bucket this pc)) r c) \<and>
     (\<forall>r c. r < 2 ^ branchAddrBits this \<longrightarrow> c \<le> branchAddrBits this \<longrightarrow>
        aw ! r ! c = addrWeightTable this ! r ! c +
          weight_delta (bph_path h) taken (bucket this pc) (branchAddrBits this)
            (unat (bucket this pc)) r c)"
    by blast
  have "update this hp tid pc taken (Some p) squashed =
       Some (if fires h squashed
             then this\<lparr>historyWeightTable := hw, addrWeightTable := aw\<rparr> else this,
             if squashed then hp else hp[p := None],
             if squashed then Some p else None)"
    using tr assms(2)
    by (simp add: update_Some fires_def bucket_def conj_commute)
  with rest show ?thesis by blast
qed

subsection \<open>How far one training moves the weights\<close>

lemma weight_delta_cases:
  "weight_delta path taken reg n b r c = 0 \<or>
   weight_delta path taken reg n b r c = 1 \<or>
   weight_delta path taken reg n b r c = - 1"
  by (simp add: weight_delta_def train_delta_def)

lemma weight_delta_bias:
  "weight_delta path taken reg n b b 0 = (if taken then 1 else - 1)"
  by (simp add: weight_delta_def)

lemma weight_delta_nonzero:
  assumes "weight_delta path taken reg n b r c \<noteq> 0"
  shows "(r, c) \<in> insert (b, 0)
           ((\<lambda>c. (unat (ucast (path ! (c - 1)) :: unsigned), c)) ` {1..n})"
proof (cases "c = 0")
  case True
  with assms show ?thesis by (simp add: weight_delta_def split: if_splits)
next
  case False
  with assms have "1 \<le> c" "c \<le> n" "r = unat (ucast (path ! (c - 1)) :: unsigned)"
    by (simp_all add: weight_delta_def train_delta_def split: if_splits)
  then show ?thesis by auto
qed

lemma weight_delta_step_nonzero:
  assumes "1 \<le> c" "c \<le> n"
  shows "weight_delta path taken reg n b (unat (ucast (path ! (c - 1)) :: unsigned)) c \<noteq> 0"
  using assms by (simp add: weight_delta_def train_delta_def)

lemma card_changed_eq:
  assumes val: "\<forall>r c. r < length t \<longrightarrow> c < length (t ! r) \<longrightarrow>
             t' ! r ! c = t ! r ! c + weight_delta path taken reg n b r c"
    and b: "b < length t"
    and rows: "\<forall>i<n. unat (ucast (path ! i) :: unsigned) < length t"
    and cols: "\<forall>r<length t. length (t ! r) = n + 1"
  shows "card (changed t t') = n + 1"
proof -
  let ?f = "\<lambda>c. (unat (ucast (path ! (c - 1)) :: unsigned), c)"
  let ?S = "insert (b, 0) (?f ` {1..n})"
  have sub: "changed t t' \<subseteq> ?S"
  proof
    fix x assume x: "x \<in> changed t t'"
    obtain r c where rc: "x = (r, c)" by (cases x)
    with x val have "weight_delta path taken reg n b r c \<noteq> 0"
      by (auto simp: changed_def)
    then show "x \<in> ?S" unfolding rc by (rule weight_delta_nonzero)
  qed
  have sup: "?S \<subseteq> changed t t'"
  proof
    fix x assume "x \<in> ?S"
    then consider "x = (b, 0)" | c where "x = ?f c" "1 \<le> c" "c \<le> n" by auto
    then show "x \<in> changed t t'"
    proof cases
      case 1
      from b cols have "0 < length (t ! b)" by simp
      with val b have "t' ! b ! 0 = t ! b ! 0 + (if taken then 1 else - 1)"
        by (simp add: weight_delta_bias)
      then have "t' ! b ! 0 \<noteq> t ! b ! 0" by (cases taken) auto
      with 1 b \<open>0 < length (t ! b)\<close> show ?thesis by (simp add: changed_def)
    next
      case 2
      let ?r = "unat (ucast (path ! (c - 1)) :: unsigned)"
      from 2 rows have r: "?r < length t" by simp
      with cols 2 have c: "c < length (t ! ?r)" by simp
      from val r c have "t' ! ?r ! c = t ! ?r ! c + weight_delta path taken reg n b ?r c"
        by simp
      with weight_delta_step_nonzero [OF 2(2,3), of path taken reg b]
      have "t' ! ?r ! c \<noteq> t ! ?r ! c" by simp
      with 2(1) r c show ?thesis by (simp add: changed_def)
    qed
  qed
  have "inj_on ?f {1..n}" by (rule inj_onI) simp
  then have "card (?f ` {1..n}) = n" by (simp add: card_image)
  moreover have "(b, 0) \<notin> ?f ` {1..n}" by auto
  ultimately have "card ?S = n + 1" by simp
  moreover from sub sup have "changed t t' = ?S" by (rule subset_antisym)
  ultimately show ?thesis by (simp only:)
qed

lemma changed_same [simp]: "changed t t = {}"
  by (simp add: changed_def)

lemma weight_delta_column:
  assumes "snapshot_ok this h" "1 \<le> c" "c \<le> n"
    "n \<le> max (branchAddrBits this) (history_length this)"
  shows "weight_delta (bph_path h) taken reg n b r c =
           (if r = unat (bph_path h ! (c - 1))
            then (if taken = bit reg (c - 1) then 1 else - 1) else 0)"
proof -
  from assms have "c - 1 < length (bph_path h)" by (simp add: snapshot_ok_def)
  with assms(1) have "unat (bph_path h ! (c - 1)) \<le> unat (pcMask this)"
    by (simp add: snapshot_ok_def list_all_length)
  then have "unat (ucast (bph_path h ! (c - 1)) :: unsigned) = unat (bph_path h ! (c - 1))"
    by (rule unat_ucast_64_32)
  with assms(2,3) show ?thesis by (simp add: weight_delta_def train_delta_def)
qed

lemma PerceptronBP_new_queues:
  assumes "PerceptronBP_new params = Some this"
  shows "pathTable this = replicate (par_numThreads params)
           (replicate (max (branchAddrBits this) (history_length this)) 0)"
  using assms by (auto simp: PerceptronBP_new_def Let_def split: if_splits)

subsection \<open>Concrete runs of the small predictor\<close>

lemma replicate_2_3: "replicate 2 x = [x, x]" "replicate 3 x = [x, x, x]"
  by (simp_all add: numeral_2_eq_2 numeral_3_eq_3)

lemma W_new: "PerceptronBP_new W_params = Some W_init"
  by (simp add: PerceptronBP_new_def W_params_def W_init_def makeMask_def Let_def replicate_2_3)

lemma W_lookup: "lookup W_init [] 0 1 = Some (W_init, [Some W_snap], Some 0, True)"
  by (simp add: lookup_def W_init_def W_snap_def Let_def at_def new_BPHistory_def
      score_loop.simps)

lemma W_advance:
  "updateHistories W_init [Some W_snap] 0 1 False True (Some 0) =
     Some (W_adv, [Some W_snap_adv], Some 0)"
  by (simp add: updateHistories_def W_init_def W_snap_def W_adv_def W_snap_adv_def Let_def
      at_def deref_def)

lemma W_squash: "squash W_adv [Some W_snap_adv] 0 (Some 0) = Some (W_init, [None], None)"
  by (simp add: squash_def W_init_def W_snap_def W_adv_def W_snap_adv_def Let_def at_def
      deref_def delete_BPHistory_def)

lemma W_update:
  "update W_adv [Some W_snap_adv] 0 1 True (Some 0) squashed =
     Some (W_trained, if squashed then [Some W_snap_adv] else [None],
           if squashed then Some 0 else None)"
  by (simp add: update_def update_train_def W_init_def W_snap_def W_adv_def W_snap_adv_def
      W_trained_def Let_def at_def deref_def delete_BPHistory_def bump_def train_loop.simps)

lemma W_params_ok: "params_ok W_params"
  by (simp add: params_ok_def W_params_def)

lemma W_threads: "(0::nat) < par_numThreads W_params"
  by (simp add: W_params_def)

lemma W_deref: "deref [Some W_snap_adv] 0 = Some W_snap_adv"
  "deref [Some W_snap_sat] 0 = Some W_snap_sat"
  by (simp_all add: deref_def)

lemma W_reachable:
  "reachable W_params (W_init, [])"
  "reachable W_params (W_adv, [Some W_snap_adv])"
proof -
  show r0: "reachable W_params (W_init, [])"
    using W_params_ok W_new by (rule reachable.constructed)
  from r0 W_lookup have "reachable W_params (W_init, [Some W_snap])"
    by (rule reachable.predicted)
  then show "reachable W_params (W_adv, [Some W_snap_adv])"
    using W_advance by (rule reachable.advanced)
qed

lemma W_trained_reachable: "reachable W_params (W_trained, [None])"
proof -
  have "update W_adv [Some W_snap_adv] 0 1 True (Some 0) False = Some (W_trained, [None], None)"
    using W_update [of False] by simp
  with W_reachable(2) show ?thesis by (rule reachable.trained)
qed


subsection \<open>Predict, advance, squash\<close>

lemma predict_snapshot_fields:
  "bph_globalHistoryReg (predict_snapshot this tid pc) = globalHistoryReg this ! tid"
  "bph_local (predict_snapshot this tid pc) =
     branchHistoryTable this ! unat (bucket this pc) AND localMask this"
  "bph_new_pc (predict_snapshot this tid pc) = ucast (bucket this pc)"
  "bph_path (predict_snapshot this tid pc) = pathTable this ! tid"
  "bph_last_y (predict_snapshot this tid pc) = spec_y_total this tid pc"
  "bph_branchAddrReplaced (predict_snapshot this tid pc) = False"
  by (simp_all add: predict_snapshot_def)

text \<open>
  Prediction, advance and squash of one branch on a well-formed predictor, with the heap
  and the handle at each step.
\<close>

lemma predict_advance_squash:
  fixes this :: PerceptronBP and tid :: nat and pc :: Addr
  assumes "inv this" "tid < length (globalHistoryReg this)"
  defines "s \<equiv> predict_snapshot this tid pc"
  shows "lookup this hp tid pc =
           Some (this, hp @ [Some s], Some (length hp), 0 \<le> sint (spec_y_total this tid pc))"
    and "updateHistories this (hp @ [Some s]) tid pc False taken (Some (length hp)) =
           Some (advance_state this tid pc taken, hp @ [Some (evicted this tid s)],
                 Some (length hp))"
    and "squash (advance_state this tid pc taken) (hp @ [Some (evicted this tid s)]) tid
           (Some (length hp)) = Some (this, hp @ [None], None)"
proof -
  show "lookup this hp tid pc =
           Some (this, hp @ [Some s], Some (length hp), 0 \<le> sint (spec_y_total this tid pc))"
    unfolding s_def by (rule lookup_eval [OF assms(1,2)])
  have d: "deref (hp @ [Some s]) (length hp) = Some s" by (simp add: deref_def)
  from updateHistories_eval [OF assms(1,2) d, of pc taken]
  show "updateHistories this (hp @ [Some s]) tid pc False taken (Some (length hp)) =
           Some (advance_state this tid pc taken, hp @ [Some (evicted this tid s)],
                 Some (length hp))"
    by simp
  from squash_advance_state [OF assms(1,2) d, of pc taken]
  show "squash (advance_state this tid pc taken) (hp @ [Some (evicted this tid s)]) tid
           (Some (length hp)) = Some (this, hp @ [None], None)"
    by (simp add: s_def predict_snapshot_fields)
qed

subsection \<open>Training does not read the live history\<close>

lemma update_train_history_free:
  "update_train (this\<lparr>globalHistoryReg := g, branchHistoryTable := bht, pathTable := pt\<rparr>)
     h new_pc taken =
   map_option (\<lambda>t. t\<lparr>globalHistoryReg := g, branchHistoryTable := bht, pathTable := pt\<rparr>)
     (update_train this h new_pc taken)"
  unfolding update_train_def Let_def
  by (simp split: bind_split)

lemma update_history_free:
  "update (this\<lparr>globalHistoryReg := g, branchHistoryTable := bht, pathTable := pt\<rparr>)
     hp tid pc taken bp squashed =
   map_option (\<lambda>(this', hp', bp').
       (this'\<lparr>globalHistoryReg := g, branchHistoryTable := bht, pathTable := pt\<rparr>, hp', bp'))
     (update this hp tid pc taken bp squashed)"
  unfolding update_def Let_def
  by (simp add: update_train_history_free split: bind_split)

subsection \<open>The invariant is kept, and snapshots stay usable\<close>

lemma predict_snapshot_ok:
  assumes "inv this" "tid < length (globalHistoryReg this)"
  shows "snapshot_ok this (predict_snapshot this tid pc)"
  using inv_path [OF assms] by (simp add: snapshot_ok_def predict_snapshot_fields)

lemma inv_squash:
  assumes "inv this" "tid < length (globalHistoryReg this)" "deref hp p = Some h"
    "advanced this h"
  shows "\<exists>this'. squash this hp tid (Some p) = Some (this', hp[p := None], None) \<and> inv this' \<and>
           length (globalHistoryReg this') = length (globalHistoryReg this)"
proof -
  note pt = inv_path [OF assms(1,2)]
  note t = inv_tables [OF assms(1)]
  from assms(4) obtain a where a: "bph_branchAddr h = Some a" "unat a \<le> unat (pcMask this)"
    and r: "bph_branchAddrReplaced h" and n: "unat (bph_new_pc h) \<le> unat (pcMask this)"
    and m: "bph_local h AND localMask this = bph_local h"
    by (auto simp: advanced_def split: option.splits)
  from assms(1) n have nb: "unat (bph_new_pc h) < length (branchHistoryTable this)"
    by (simp add: inv_def)
  let ?new = "tl (pathTable this ! tid) @ [ucast a]"
  let ?this' = "this\<lparr>
       globalHistoryReg := (globalHistoryReg this)[tid := bph_globalHistoryReg h],
       branchHistoryTable := (branchHistoryTable this)[unat (bph_new_pc h) := bph_local h],
       pathTable := (pathTable this)[tid := ?new]\<rparr>"
  have rng: "at (globalHistoryReg this) tid = Some (globalHistoryReg this ! tid)"
    "at (branchHistoryTable this) (unat (bph_new_pc h)) =
       Some (branchHistoryTable this ! unat (bph_new_pc h))"
    "at (pathTable this) tid = Some (pathTable this ! tid)"
    using assms(2) pt(1) nb by (simp_all add: at_in_range)
  have sq: "squash this hp tid (Some p) = Some (?this', hp[p := None], None)"
    unfolding squash_def Let_def
    by (simp add: assms(3) rng r a(1) pt(3) delete_BPHistory_def)
  have len: "length ?new = max (branchAddrBits this) (history_length this)"
    using pt(2,3) by (cases "pathTable this ! tid") auto
  have "set (tl (pathTable this ! tid)) \<subseteq> set (pathTable this ! tid)"
    by (cases "pathTable this ! tid") auto
  with pt(4) a(2) have ent: "list_all (\<lambda>e. unat e \<le> unat (pcMask this)) ?new"
    by (auto simp: list_all_iff unat_ucast_32_64)
  have paths: "list_all (\<lambda>pt. length pt = max (branchAddrBits this) (history_length this) \<and>
                     list_all (\<lambda>e. unat e \<le> unat (pcMask this)) pt)
                 ((pathTable this)[tid := ?new])"
    using assms(1) len ent
    by (auto simp: inv_def list_all_iff dest!: set_update_subset_insert [THEN subsetD])
  have bht: "list_all (\<lambda>b. b AND localMask this = b)
               ((branchHistoryTable this)[unat (bph_new_pc h) := bph_local h])"
    using assms(1) m
    by (auto simp: inv_def list_all_iff dest!: set_update_subset_insert [THEN subsetD])
  have "inv ?this'"
    using assms(1) paths bht by (simp add: inv_def)
  with sq show ?thesis by simp
qed

lemma inv_update:
  assumes "inv this" "deref hp p = Some h" "snapshot_ok this h"
  shows "\<exists>this'. update this hp tid pc taken (Some p) squashed =
             Some (this', if squashed then hp else hp[p := None],
                   if squashed then Some p else None) \<and>
           inv this' \<and> globalHistoryReg this' = globalHistoryReg this"
proof -
  from update_eval [OF assms, of tid pc taken squashed] obtain hw aw where
    u: "update this hp tid pc taken (Some p) squashed =
       Some (if fires h squashed
             then this\<lparr>historyWeightTable := hw, addrWeightTable := aw\<rparr> else this,
             if squashed then hp else hp[p := None],
             if squashed then Some p else None)" and
    l: "length hw = 2 ^ branchAddrBits this"
      "\<forall>r<length hw. length (hw ! r) = history_length this + 1"
      "length aw = 2 ^ branchAddrBits this"
      "\<forall>r<length aw. length (aw ! r) = branchAddrBits this + 1"
    by blast
  have "inv (this\<lparr>historyWeightTable := hw, addrWeightTable := aw\<rparr>)"
    using assms(1) l by (simp add: inv_def list_all_length)
  with u assms(1) show ?thesis by (cases "fires h squashed") simp_all
qed

subsection \<open>Reachable states are well formed\<close>

lemma snap_inv_config:
  assumes "pcMask this' = pcMask this" "localMask this' = localMask this"
    "branchAddrBits this' = branchAddrBits this" "history_length this' = history_length this"
  shows "snap_inv this' h = snap_inv this h"
  by (simp add: snap_inv_def snapshot_ok_def assms split: option.splits)

lemma heap_inv_config:
  assumes "pcMask this' = pcMask this" "localMask this' = localMask this"
    "branchAddrBits this' = branchAddrBits this" "history_length this' = history_length this"
  shows "heap_inv this' hp = heap_inv this hp"
proof -
  have "snap_inv this' = snap_inv this" by (rule ext) (rule snap_inv_config [OF assms])
  then show ?thesis by (simp add: heap_inv_def cong: option.case_cong)
qed

lemma heap_inv_deref: "heap_inv this hp \<Longrightarrow> deref hp p = Some h \<Longrightarrow> snap_inv this h"
  by (auto simp: heap_inv_def deref_Some_iff list_all_length split: option.splits)

lemma heap_inv_append: "heap_inv this hp \<Longrightarrow> snap_inv this h \<Longrightarrow> heap_inv this (hp @ [Some h])"
  by (simp add: heap_inv_def)

lemma heap_inv_update:
  "heap_inv this hp \<Longrightarrow> (case c of None \<Rightarrow> True | Some h \<Rightarrow> snap_inv this h) \<Longrightarrow>
   heap_inv this (hp[p := c])"
  by (auto simp: heap_inv_def list_all_iff dest!: set_update_subset_insert [THEN subsetD])

lemma snap_inv_predict:
  assumes "inv this" "tid < length (globalHistoryReg this)"
  shows "snap_inv this (predict_snapshot this tid pc)"
    and "snap_inv this ((predict_snapshot this tid pc)\<lparr>bph_last_y := 0\<rparr>)"
proof -
  have "unat (ucast (bucket this pc) :: unsigned) \<le> unat (pcMask this)"
    using inv_bucket(2) [OF assms(1), of pc] by (simp add: bucket_def unat_ucast_64_32)
  then show "snap_inv this (predict_snapshot this tid pc)"
    using predict_snapshot_ok [OF assms, of pc]
    by (simp add: snap_inv_def predict_snapshot_fields and.assoc)
  then show "snap_inv this ((predict_snapshot this tid pc)\<lparr>bph_last_y := 0\<rparr>)"
    by (simp add: snap_inv_def snapshot_ok_def)
qed

lemma snap_inv_evicted:
  assumes "inv this" "tid < length (globalHistoryReg this)" "snap_inv this h"
  shows "snap_inv this (evicted this tid h)"
proof -
  note pt = inv_path [OF assms(1,2)]
  from pt(4,3) have l: "unat (last (pathTable this ! tid)) \<le> unat (pcMask this)"
    by (simp add: list_all_iff)
  then have "unat (ucast (last (pathTable this ! tid)) :: unsigned) \<le> unat (pcMask this)"
    by (simp add: unat_ucast_64_32 [OF l])
  with assms(3) show ?thesis by (simp add: snap_inv_def snapshot_ok_def)
qed

lemma snap_inv_advanced:
  "snap_inv this h \<Longrightarrow> bph_branchAddrReplaced h \<Longrightarrow> advanced this h"
  by (simp add: snap_inv_def advanced_def)

lemma updateHistories_inv_Some:
  assumes "updateHistories this hp tid pc uncond taken bp0 = Some (this', hp', bp')" "inv this"
  shows "tid < length (globalHistoryReg this) \<and> this' = advance_state this tid pc taken \<and>
         (if uncond
          then hp' = hp @ [Some (evicted this tid ((predict_snapshot this tid pc)\<lparr>bph_last_y := 0\<rparr>))] \<and>
               bp' = Some (length hp)
          else \<exists>p h. bp0 = Some p \<and> deref hp p = Some h \<and>
                 hp' = hp[p := Some (evicted this tid h)] \<and> bp' = Some p)"
proof -
  from assms(1) have t: "tid < length (globalHistoryReg this)"
    by (simp add: updateHistories_def Let_def bind_eq_Some_conv)
  note pt = inv_path [OF assms(2) t]
  have rng: "at (globalHistoryReg this) tid = Some (globalHistoryReg this ! tid)"
    "at (branchHistoryTable this) (unat (pc AND ucast (pcMask this))) =
       Some (branchHistoryTable this ! unat (pc AND ucast (pcMask this)))"
    "at (pathTable this) tid = Some (pathTable this ! tid)"
    using t pt(1) inv_tables(1) [OF assms(2)] inv_bucket(1) [OF assms(2), of pc]
    by (simp_all add: at_in_range)
  show ?thesis
  proof (cases uncond)
    case True
    with assms(1) updateHistories_eval_uncond [OF assms(2) t, of hp pc taken bp0] t
    show ?thesis by auto
  next
    case False
    note cond = this
    show ?thesis
    proof (cases bp0)
      case None
      with assms(1) cond show ?thesis
        by (simp add: updateHistories_def Let_def rng pt(2))
    next
      case (Some p)
      show ?thesis
      proof (cases "deref hp p")
        case None
        with assms(1) cond Some show ?thesis
          by (simp add: updateHistories_def Let_def rng pt(2))
      next
        case (Some h)
        with assms(1) cond \<open>bp0 = Some p\<close> updateHistories_eval [OF assms(2) t Some, of pc taken] t
        show ?thesis by auto
      qed
    qed
  qed
qed

lemma advance_state_config:
  "pcMask (advance_state this tid pc taken) = pcMask this"
  "localMask (advance_state this tid pc taken) = localMask this"
  "branchAddrBits (advance_state this tid pc taken) = branchAddrBits this"
  "history_length (advance_state this tid pc taken) = history_length this"
  by (simp_all add: advance_state_def)

lemma reachable_inv:
  assumes "reachable params st"
  shows "inv (fst st) \<and> length (globalHistoryReg (fst st)) = par_numThreads params \<and>
         heap_inv (fst st) (snd st)"
  using assms
proof (induction rule: reachable.induct)
  case (constructed this)
  with PerceptronBP_new_inv [of params] show ?case by (auto simp: heap_inv_def)
next
  case (predicted this hp tid pc this' hp' bp' b)
  from predicted.hyps(2) have t: "tid < length (globalHistoryReg this)"
    by (simp add: lookup_def Let_def bind_eq_Some_conv)
  from predicted.IH have i: "inv this" and h: "heap_inv this hp" by simp_all
  from predicted.hyps(2) lookup_eval [OF i t, of hp pc]
  have "this' = this" "hp' = hp @ [Some (predict_snapshot this tid pc)]" by auto
  with predicted.IH heap_inv_append [OF h snap_inv_predict(1) [OF i t, of pc]]
  show ?case by simp
next
  case (advanced this hp tid pc uncond taken bp this' hp' bp')
  from advanced.IH have i: "inv this" and h: "heap_inv this hp"
    and n: "length (globalHistoryReg this) = par_numThreads params" by simp_all
  note d = updateHistories_inv_Some [OF advanced.hyps(2) i]
  from d have t: "tid < length (globalHistoryReg this)"
    and this': "this' = advance_state this tid pc taken" by simp_all
  have i': "inv this'" unfolding this' by (rule inv_advance_state [OF i t])
  have n': "length (globalHistoryReg this') = par_numThreads params"
    unfolding this' using n by (simp add: advance_state_frame)
  have "heap_inv this hp'"
  proof (cases uncond)
    case True
    with d have "hp' = hp @ [Some (evicted this tid ((predict_snapshot this tid pc)\<lparr>bph_last_y := 0\<rparr>))]"
      by simp
    with h snap_inv_evicted [OF i t snap_inv_predict(2) [OF i t, of pc]]
    show ?thesis by (simp add: heap_inv_append)
  next
    case False
    with d obtain p s where p: "deref hp p = Some s" "hp' = hp[p := Some (evicted this tid s)]"
      by auto
    from heap_inv_deref [OF h p(1)] have "snap_inv this (evicted this tid s)"
      by (rule snap_inv_evicted [OF i t])
    with h show ?thesis unfolding p(2) by (intro heap_inv_update) simp_all
  qed
  then have "heap_inv this' hp'"
    unfolding this' by (simp add: heap_inv_config [OF advance_state_config])
  with i' n' show ?case by simp
next
  case (trained this hp tid pc taken bp squashed this' hp' bp')
  from trained.IH have i: "inv this" and h: "heap_inv this hp"
    and n: "length (globalHistoryReg this) = par_numThreads params" by simp_all
  from trained.hyps(2) obtain p s where p: "bp = Some p" "deref hp p = Some s"
    by (auto simp: update_Some)
  from heap_inv_deref [OF h p(2)] have ok: "snapshot_ok this s" by (simp add: snap_inv_def)
  from inv_update [OF i p(2) ok, of tid pc taken squashed] trained.hyps(2) p(1)
  have i': "inv this'" and g: "globalHistoryReg this' = globalHistoryReg this"
    and hp': "hp' = (if squashed then hp else hp[p := None])"
    by auto
  from update_SomeD [OF trained.hyps(2)]
  have "this' = this\<lparr>historyWeightTable := historyWeightTable this',
                       addrWeightTable := addrWeightTable this'\<rparr>" by simp
  then have c: "pcMask this' = pcMask this" "localMask this' = localMask this"
    "branchAddrBits this' = branchAddrBits this" "history_length this' = history_length this"
    by (metis PerceptronBP.select_convs(4,5,7,8) PerceptronBP.surjective
        PerceptronBP.update_convs(11,12))+
  have "heap_inv this hp'" unfolding hp' using h by (simp add: heap_inv_update)
  then have "heap_inv this' hp'" by (simp add: heap_inv_config [OF c])
  with i' g n show ?case by simp
next
  case (reverted this hp p h tid this' hp' bp')
  from reverted.IH have i: "inv this" and hi: "heap_inv this hp"
    and n: "length (globalHistoryReg this) = par_numThreads params" by simp_all
  from squash_SomeD [OF reverted.hyps(4)] have t: "tid < length (globalHistoryReg this)"
    by blast
  from heap_inv_deref [OF hi reverted.hyps(2)] reverted.hyps(3) have a: "advanced this h"
    by (rule snap_inv_advanced)
  from inv_squash [OF i t reverted.hyps(2) a] reverted.hyps(4)
  have i': "inv this'" and g: "length (globalHistoryReg this') = length (globalHistoryReg this)"
    and hp': "hp' = hp[p := None]"
    by auto
  from squash_SomeD [OF reverted.hyps(4)] obtain x y z where
    "this' = this\<lparr>globalHistoryReg := x, branchHistoryTable := y, pathTable := z\<rparr>"
    by blast
  then have c: "pcMask this' = pcMask this" "localMask this' = localMask this"
    "branchAddrBits this' = branchAddrBits this" "history_length this' = history_length this"
    by simp_all
  have "heap_inv this hp'" unfolding hp' using hi by (simp add: heap_inv_update)
  then have "heap_inv this' hp'" by (simp add: heap_inv_config [OF c])
  with i' g n show ?case by simp
qed

lemma reachable_wf:
  assumes "reachable params (this, hp)"
  shows "inv this" "length (globalHistoryReg this) = par_numThreads params" "heap_inv this hp"
  using reachable_inv [OF assms] by simp_all

lemma reachable_snapshot:
  assumes "reachable params (this, hp)" "deref hp p = Some h"
  shows "snapshot_ok this h"
  using heap_inv_deref [OF reachable_wf(3) [OF assms(1)] assms(2)] by (simp add: snap_inv_def)

lemma inv_path_full: "inv this \<Longrightarrow> path_full this"
  by (simp add: inv_def path_full_def list_all_iff)





subsection \<open>The scores as integers\<close>




subsection \<open>The history that training reads\<close>

lemma snapshot_reg_zero_extended:
  assumes "\<not> bit (bph_local h) 31"
  shows "snapshot_reg this h = snapshot_combined_history this h"
proof -
  have "(scast (bph_local h) :: Addr) = ucast (bph_local h)"
  proof (rule bit_eqI)
    fix n
    have "bit (bph_local h) (min 31 n) \<longleftrightarrow> n < 32 \<and> bit (bph_local h) n"
    proof (cases "n < 31")
      case True
      then show ?thesis by (simp add: min_def)
    next
      case False
      then have "min 31 n = 31" "n < 32 \<longleftrightarrow> n = 31" by auto
      with assms show ?thesis by auto
    qed
    then show "bit (scast (bph_local h) :: Addr) n \<longleftrightarrow> bit (ucast (bph_local h) :: Addr) n"
      by (auto simp: bit_simps dest: bit_imp_le_length)
  qed
  then show ?thesis by (simp add: snapshot_reg_def snapshot_combined_history_def)
qed

lemma predict_snapshot_combined_history:
  "snapshot_combined_history this (predict_snapshot this tid pc) = combined_history this tid pc"
  by (simp add: snapshot_combined_history_def combined_history_def predict_snapshot_def Let_def)

subsection \<open>The run with 32 bits of local history\<close>

lemma replicate_unfold:
  "replicate 33 x = [x, x, x, x, x, x, x, x, x, x, x, x, x, x, x, x, x, x, x, x, x, x, x, x,
     x, x, x, x, x, x, x, x, x]"
  by (simp add: numeral_eq_Suc)

lemma sum_list_map_zero:
  fixes f :: "'a \<Rightarrow> cint"
  assumes "\<And>x. x \<in> set xs \<Longrightarrow> f x = 0"
  shows "sum_list (map f xs) = 0"
  using assms by (induction xs) simp_all

lemma L32_new: "PerceptronBP_new L32_params = Some L32_init"
  by (simp add: PerceptronBP_new_def L32_params_def L32_init_def makeMask_def Let_def)

lemma L32_params_ok: "params_ok L32_params"
  by (simp add: params_ok_def L32_params_def)

lemma L32_inv: "inv L32_init" "inv (L32_run k)"
  by (simp_all add: inv_def L32_init_def L32_run_def list_all_iff)

lemma L32_score: "spec_y_total L32_init 0 0 = 0" "spec_y_total (L32_run k) 0 0 = 0"
proof -
  have "spec_y this 0 0 = 0 \<and> spec_y_addr this 0 0 = 0"
    if "this = L32_init \<or> this = L32_run k" for this
  proof -
    from that have c: "pcMask this = 0" "history_length this = 33" "branchAddrBits this = 0"
      "pathTable this = [replicate 33 0]" "historyWeightTable this = [replicate 34 0]"
      "addrWeightTable this = [[0]]"
      by (auto simp: L32_init_def L32_run_def)
    have "(\<Sum>j\<leftarrow>[1..<Suc 33].
        let k = unat ([replicate 33 (0 :: Addr)] ! 0 ! (j - 1));
            w = [replicate 34 (0 :: cint)] ! k ! j
        in if bit (combined_history this 0 0) (j - 1) then w else - w) = 0"
      by (rule sum_list_map_zero) (auto simp: Let_def)
    then show ?thesis by (simp add: spec_y_def spec_y_addr_def bucket_def c)
  qed
  then show "spec_y_total L32_init 0 0 = 0" "spec_y_total (L32_run k) 0 0 = 0"
    by (simp_all add: spec_y_total_def)
qed

lemma L32_lookup_init:
  "lookup L32_init [] 0 0 = Some (L32_init, [Some L32_first], Some 0, True)"
proof -
  have t: "(0 :: nat) < length (globalHistoryReg L32_init)" by (simp add: L32_init_def)
  have "predict_snapshot L32_init 0 0 = L32_first"
    unfolding predict_snapshot_def L32_score
    by (simp add: bucket_def L32_init_def L32_first_def)
  with lookup_eval [OF L32_inv(1) t, of "[]" 0] show ?thesis by (simp add: L32_score)
qed

lemma L32_advance_taken:
  "updateHistories L32_init [Some L32_first] 0 0 False True (Some 0) =
     Some (L32_taken, [Some L32_advanced], Some 0)"
  by (simp add: updateHistories_def L32_init_def L32_taken_def L32_first_def L32_advanced_def
      Let_def at_def deref_def replicate_unfold)

lemma L32_advance_not_taken:
  "updateHistories L32_taken [Some L32_advanced] 0 0 False False (Some 0) =
     Some (L32_run 1, [Some L32_advanced], Some 0)"
  by (simp add: updateHistories_def L32_init_def L32_taken_def L32_run_def L32_first_def
      L32_advanced_def Let_def at_def deref_def replicate_unfold)

lemma L32_advance_run:
  "updateHistories (L32_run k) [Some L32_advanced] 0 0 False False (Some 0) =
     Some (L32_run (Suc k), [Some L32_advanced], Some 0)"
  by (simp add: updateHistories_def L32_init_def L32_run_def L32_first_def
      L32_advanced_def Let_def at_def deref_def replicate_unfold push_bit_eq_mult)

lemma L32_reachable: "reachable L32_params (L32_run (Suc k), [Some L32_advanced])"
proof (induction k)
  case 0
  have "reachable L32_params (L32_init, [])"
    using L32_params_ok L32_new by (rule reachable.constructed)
  then have "reachable L32_params (L32_init, [Some L32_first])"
    using L32_lookup_init by (rule reachable.predicted)
  then have "reachable L32_params (L32_taken, [Some L32_advanced])"
    using L32_advance_taken by (rule reachable.advanced)
  then show ?case using L32_advance_not_taken by (simp add: reachable.advanced)
next
  case (Suc k)
  then show ?case using L32_advance_run [of "Suc k"] by (rule reachable.advanced)
qed

lemma L32_lookup:
  "lookup (L32_run 31) [Some L32_advanced] 0 0 =
     Some (L32_run 31, [Some L32_advanced, Some L32_snap], Some 1, True)"
proof -
  have t: "(0 :: nat) < length (globalHistoryReg (L32_run 31))"
    by (simp add: L32_run_def L32_init_def)
  have "predict_snapshot (L32_run 31) 0 0 = L32_snap"
    unfolding predict_snapshot_def L32_score
    by (simp add: bucket_def L32_init_def L32_run_def L32_first_def L32_snap_def)
  with lookup_eval [OF L32_inv(2) t, of "[Some L32_advanced]" 0] show ?thesis
    by (simp add: L32_score)
qed

lemma L32_histories:
  "combined_history (L32_run 31) 0 0 = 2 ^ 31"
  "snapshot_combined_history (L32_run 31) L32_snap = 2 ^ 31"
  by (simp_all add: combined_history_def snapshot_combined_history_def bucket_def Let_def
      L32_run_def L32_init_def L32_snap_def L32_first_def)

lemma L32_reg: "snapshot_reg (L32_run 31) L32_snap = NOT (mask 31)"
proof -
  have "snapshot_reg (L32_run 31) L32_snap = - 2147483648"
    by (simp add: snapshot_reg_def L32_run_def L32_init_def L32_snap_def L32_first_def)
  also have "\<dots> = NOT (mask 31)"
    by (simp add: not_eq_complement mask_eq_exp_minus_1)
  finally show ?thesis .
qed

lemma L32_reg_bit:
  assumes "n < 64"
  shows "bit (snapshot_reg (L32_run 31) L32_snap) n \<longleftrightarrow> 31 \<le> n"
proof -
  have "bit (NOT (mask 31) :: Addr) n \<longleftrightarrow> 31 \<le> n"
    using assms by (simp only: bit_not_iff bit_mask_iff possible_bit_word) auto
  then show ?thesis by (simp only: L32_reg)
qed

lemma L32_row_nth:
  assumes "c < 34"
  shows "(1 # replicate 31 (- 1) @ [1, 1 :: cint]) ! c =
           (if c = 0 then 1 else if c \<le> 31 then - 1 else 1)"
  using assms by (auto simp: nth_Cons' nth_append)

lemma L32_update:
  "update (L32_run 31) [Some L32_advanced, Some L32_snap] 0 0 True (Some 1) False =
     Some (L32_trained, [Some L32_advanced, None], None)"
proof -
  let ?s = "L32_run 31"
  have c: "history_length ?s = 33" "branchAddrBits ?s = 0"
    "historyWeightTable ?s = [replicate 34 0]" "addrWeightTable ?s = [[0]]"
    "bph_path L32_snap = replicate 33 0" "bucket ?s 0 = 0"
    by (simp_all add: L32_run_def L32_init_def L32_snap_def L32_first_def bucket_def)
  have d: "deref [Some L32_advanced, Some L32_snap] 1 = Some L32_snap"
    by (simp add: deref_def)
  have ok: "snapshot_ok ?s L32_snap"
    by (simp add: snapshot_ok_def c list_all_iff)
  have f: "fires L32_snap False"
    by (simp add: fires_def L32_snap_def L32_first_def)
  from update_eval [OF L32_inv(2) d ok, of 0 0 True False] f obtain hw aw where
    u: "update ?s [Some L32_advanced, Some L32_snap] 0 0 True (Some 1) False =
       Some (?s\<lparr>historyWeightTable := hw, addrWeightTable := aw\<rparr>,
             [Some L32_advanced, None], None)" and
    lh: "length hw = 1" "\<forall>r<length hw. length (hw ! r) = 34" and
    la: "length aw = 1" "\<forall>r<length aw. length (aw ! r) = 1" and
    vh: "\<forall>k\<le>33. hw ! 0 ! k = [replicate 34 0] ! 0 ! k +
          weight_delta (replicate 33 0) True (snapshot_reg ?s L32_snap) 33 0 0 k" and
    va: "aw ! 0 ! 0 = [[0]] ! 0 ! 0 +
          weight_delta (replicate 33 0) True 0 0 0 0 0"
    by (auto simp: c)
  have row: "hw ! 0 ! k = (1 # replicate 31 (- 1) @ [1, 1]) ! k" if k: "k < 34" for k
  proof (cases "k = 0")
    case True
    with vh show ?thesis by (simp add: weight_delta_bias)
  next
    case False
    with k have k1: "1 \<le> k" "k \<le> 33" by simp_all
    have m: "(33 :: nat) \<le> max (branchAddrBits ?s) (history_length ?s)" by (simp add: c)
    from weight_delta_column [OF ok k1 m, of True "snapshot_reg ?s L32_snap" 0 0] k1
    have "weight_delta (replicate 33 0) True (snapshot_reg ?s L32_snap) 33 0 0 k =
        (if 31 \<le> k - 1 then 1 else - 1)"
      by (simp add: c L32_reg_bit)
    with vh k1 have a: "hw ! 0 ! k = (if 32 \<le> k then 1 else - 1)" by auto
    have b: "(1 # replicate 31 (- 1) @ [1, 1 :: cint]) ! k = (if 32 \<le> k then 1 else - 1)"
      using L32_row_nth [OF k] False by auto
    show ?thesis unfolding a b ..
  qed
  have "hw ! 0 = 1 # replicate 31 (- 1) @ [1, 1]"
    using lh row by (intro nth_equalityI) simp_all
  with lh(1) have hw: "hw = [1 # replicate 31 (- 1) @ [1, 1]]"
    by (cases hw) simp_all
  from va have "aw ! 0 ! 0 = 1" by (simp add: weight_delta_bias)
  with la have "aw ! 0 = [1]" by (intro nth_equalityI) simp_all
  with la(1) have aw: "aw = [[1]]" by (cases aw) simp_all
  show ?thesis unfolding u hw aw by (simp add: L32_trained_def)
qed

lemma L32_column_33:
  "historyWeightTable (L32_run 31) ! 0 ! 33 = 0" "historyWeightTable L32_trained ! 0 ! 33 = 1"
proof -
  show "historyWeightTable (L32_run 31) ! 0 ! 33 = 0"
    by (simp add: L32_run_def L32_init_def)
  have "historyWeightTable L32_trained = [1 # replicate 31 (- 1) @ [1, 1 :: cint]]"
    by (simp add: L32_trained_def)
  then have "historyWeightTable L32_trained ! 0 ! 33 = (1 # replicate 31 (- 1) @ [1, 1 :: cint]) ! 33"
    by (simp only: nth_Cons_0)
  then show "historyWeightTable L32_trained ! 0 ! 33 = 1"
    by (simp only: L32_row_nth [of 33]) simp
qed

lemma L32_recorded_delta:
  "weight_delta (bph_path L32_snap) True (snapshot_combined_history (L32_run 31) L32_snap)
     33 0 0 33 = - 1"
  unfolding L32_histories
  by (simp add: weight_delta_def train_delta_def L32_snap_def L32_first_def bit_exp_iff)

section \<open>The claims\<close>

text \<open>
  C1. Round trip. In every reachable state, for every thread of the predictor and every
  address, \<^verbatim>\<open>lookup\<close> returns a snapshot, \<^verbatim>\<open>updateHistories\<close> called for the same branch
  with that snapshot returns, and \<^verbatim>\<open>squash\<close> called with it immediately afterwards returns
  and restores the thread's global history register, the local history register of the
  bucket and the thread's path queue to the values they had before the advance: the whole
  predictor is again what it was.
\<close>

theorem squash_restores_history:
  assumes "reachable params (this, hp)" "tid < par_numThreads params"
  shows "\<exists>hp1 s b this2 hp2 s2 this3 hp3 s3.
     lookup this hp tid pc = Some (this, hp1, s, b) \<and>
     updateHistories this hp1 tid pc False taken s = Some (this2, hp2, s2) \<and>
     squash this2 hp2 tid s2 = Some (this3, hp3, s3) \<and>
     globalHistoryReg this3 ! tid = globalHistoryReg this ! tid \<and>
     branchHistoryTable this3 ! unat (bucket this pc) =
       branchHistoryTable this ! unat (bucket this pc) \<and>
     pathTable this3 ! tid = pathTable this ! tid \<and>
     this3 = this"
proof -
  note w = reachable_wf [OF assms(1)]
  from assms(2) w(2) have t: "tid < length (globalHistoryReg this)" by simp
  show ?thesis
  proof (intro exI conjI)
    show "lookup this hp tid pc =
        Some (this, hp @ [Some (predict_snapshot this tid pc)], Some (length hp),
              0 \<le> sint (spec_y_total this tid pc))"
      by (rule predict_advance_squash(1) [OF w(1) t])
    show "updateHistories this (hp @ [Some (predict_snapshot this tid pc)]) tid pc False taken
          (Some (length hp)) =
        Some (advance_state this tid pc taken,
              hp @ [Some (evicted this tid (predict_snapshot this tid pc))], Some (length hp))"
      by (rule predict_advance_squash(2) [OF w(1) t])
    show "squash (advance_state this tid pc taken)
          (hp @ [Some (evicted this tid (predict_snapshot this tid pc))]) tid (Some (length hp)) =
        Some (this, hp @ [None], None)"
      by (rule predict_advance_squash(3) [OF w(1) t])
  qed simp_all
qed

theorem squash_restores_history_witness:
  "reachable W_params (W_init, []) \<and> 0 < par_numThreads W_params \<and>
   (\<exists>hp1 s b this2 hp2 s2 this3 hp3 s3.
     lookup W_init [] 0 1 = Some (W_init, hp1, s, b) \<and>
     updateHistories W_init hp1 0 1 False True s = Some (this2, hp2, s2) \<and>
     squash this2 hp2 0 s2 = Some (this3, hp3, s3) \<and>
     globalHistoryReg this3 ! 0 = globalHistoryReg W_init ! 0 \<and>
     branchHistoryTable this3 ! unat (bucket W_init 1) =
       branchHistoryTable W_init ! unat (bucket W_init 1) \<and>
     pathTable this3 ! 0 = pathTable W_init ! 0 \<and>
     this3 = W_init)"
  using squash_restores_history [OF W_reachable(1) W_threads, of 1 True] W_reachable(1) W_threads
  by blast

text \<open>
  C2. Squash of the youngest branch in flight. In every reachable state, predict and
  advance of a branch A followed by predict and advance of a branch B on the same thread
  all return, and the squash of B's snapshot returns with the predictor exactly as it was
  immediately after A's advance: the thread's global history register and path queue, and
  every entry of both weight tables. A's snapshot is still on the heap with the contents
  it had after A's advance.
\<close>

theorem squash_youngest_keeps_older:
  assumes "reachable params (this, hp)" "tid < par_numThreads params"
  shows "\<exists>hp1 sA bA thisA hpA sA' hp2 sB bB thisB hpB sB' thisF hpF sF pA hA.
     lookup this hp tid pcA = Some (this, hp1, sA, bA) \<and>
     updateHistories this hp1 tid pcA False takenA sA = Some (thisA, hpA, sA') \<and>
     lookup thisA hpA tid pcB = Some (thisA, hp2, sB, bB) \<and>
     updateHistories thisA hp2 tid pcB False takenB sB = Some (thisB, hpB, sB') \<and>
     squash thisB hpB tid sB' = Some (thisF, hpF, sF) \<and>
     sA' = Some pA \<and> deref hpA pA = Some hA \<and> deref hpF pA = Some hA \<and>
     historyWeightTable thisF = historyWeightTable thisA \<and>
     addrWeightTable thisF = addrWeightTable thisA \<and>
     globalHistoryReg thisF ! tid = globalHistoryReg thisA ! tid \<and>
     pathTable thisF ! tid = pathTable thisA ! tid \<and>
     thisF = thisA"
proof -
  note w = reachable_wf [OF assms(1)]
  from assms(2) w(2) have t: "tid < length (globalHistoryReg this)" by simp
  let ?sA = "predict_snapshot this tid pcA"
  let ?thisA = "advance_state this tid pcA takenA"
  let ?hpA = "hp @ [Some (evicted this tid ?sA)]"
  have invA: "inv ?thisA" by (rule inv_advance_state [OF w(1) t])
  have tidA: "tid < length (globalHistoryReg ?thisA)"
    using t by (simp add: advance_state_frame)
  note A = predict_advance_squash [OF w(1) t, where hp = hp and pc = pcA]
  note B = predict_advance_squash [OF invA tidA, where hp = ?hpA and pc = pcB]
  have d: "deref ?hpA (length hp) = Some (evicted this tid ?sA)"
    "deref (?hpA @ [None]) (length hp) = Some (evicted this tid ?sA)"
    by (simp_all add: deref_def nth_append)
  show ?thesis
    by (intro exI conjI, rule A(1), rule A(2) [where taken = takenA], rule B(1),
        rule B(2) [where taken = takenB], rule B(3), rule refl, rule d(1), rule d(2)) simp_all
qed

theorem squash_youngest_keeps_older_witness:
  "reachable W_params (W_init, []) \<and> 0 < par_numThreads W_params \<and>
   (\<exists>hp1 sA bA thisA hpA sA' hp2 sB bB thisB hpB sB' thisF hpF sF pA hA.
     lookup W_init [] 0 1 = Some (W_init, hp1, sA, bA) \<and>
     updateHistories W_init hp1 0 1 False True sA = Some (thisA, hpA, sA') \<and>
     lookup thisA hpA 0 0 = Some (thisA, hp2, sB, bB) \<and>
     updateHistories thisA hp2 0 0 False False sB = Some (thisB, hpB, sB') \<and>
     squash thisB hpB 0 sB' = Some (thisF, hpF, sF) \<and>
     sA' = Some pA \<and> deref hpA pA = Some hA \<and> deref hpF pA = Some hA \<and>
     historyWeightTable thisF = historyWeightTable thisA \<and>
     addrWeightTable thisF = addrWeightTable thisA \<and>
     globalHistoryReg thisF ! 0 = globalHistoryReg thisA ! 0 \<and>
     pathTable thisF ! 0 = pathTable thisA ! 0 \<and>
     thisF = thisA)"
  using squash_youngest_keeps_older [OF W_reachable(1) W_threads, of 1 True 0 False]
    W_reachable(1) W_threads
  by blast

text \<open>
  C3. Saturation policy. For every live snapshot whose recorded score \<open>y\<close> has
  \<open>|y| > 64\<close>, whatever the predictor, \<^verbatim>\<open>update\<close> with \<open>squashed = false\<close> returns and
  leaves every entry of both weight tables unchanged. Conversely, in every reachable
  state and for every live snapshot, whenever the branch was squashed or
  \<open>-64 \<le> y \<le> 64\<close>, \<^verbatim>\<open>update\<close> returns and has adjusted the weights: the two bias
  weights of the bucket have moved by one in the direction of \<open>taken\<close>, so neither table
  is what it was.
\<close>

theorem update_saturation_policy:
  "(deref hp p = Some h \<and> 64 < \<bar>sint (bph_last_y h)\<bar> \<longrightarrow>
      (\<exists>this' hp' bp'. update this hp tid pc taken (Some p) False = Some (this', hp', bp') \<and>
         historyWeightTable this' = historyWeightTable this \<and>
         addrWeightTable this' = addrWeightTable this)) \<and>
   (reachable params (that, hq) \<and> deref hq q = Some g \<and>
    (squashed \<or> (- 64 \<le> sint (bph_last_y g) \<and> sint (bph_last_y g) \<le> 64)) \<longrightarrow>
      (\<exists>that' hq' bq'. update that hq tid pc taken (Some q) squashed = Some (that', hq', bq') \<and>
         historyWeightTable that' ! unat (bucket that pc) ! 0 =
           historyWeightTable that ! unat (bucket that pc) ! 0 + (if taken then 1 else - 1) \<and>
         addrWeightTable that' ! unat (bucket that pc) ! 0 =
           addrWeightTable that ! unat (bucket that pc) ! 0 + (if taken then 1 else - 1) \<and>
         historyWeightTable that' \<noteq> historyWeightTable that \<and>
         addrWeightTable that' \<noteq> addrWeightTable that))"
proof (intro conjI impI)
  assume a: "deref hp p = Some h \<and> 64 < \<bar>sint (bph_last_y h)\<bar>"
  then have "\<not> (sint (bph_last_y h) \<le> 64 \<and> sint (bph_last_y h) \<ge> - 64)" by arith
  with a have "update this hp tid pc taken (Some p) False = Some (this, hp[p := None], None)"
    by (auto simp: update_Some)
  then show "\<exists>this' hp' bp'. update this hp tid pc taken (Some p) False = Some (this', hp', bp') \<and>
         historyWeightTable this' = historyWeightTable this \<and>
         addrWeightTable this' = addrWeightTable this"
    by simp
next
  assume a: "reachable params (that, hq) \<and> deref hq q = Some g \<and>
    (squashed \<or> (- 64 \<le> sint (bph_last_y g) \<and> sint (bph_last_y g) \<le> 64))"
  then have f: "fires g squashed" by (simp add: fires_def)
  let ?b = "unat (bucket that pc)"
  from a have re: "reachable params (that, hq)" and d: "deref hq q = Some g" by simp_all
  have i: "inv that" by (rule reachable_wf(1) [OF re])
  have ok: "snapshot_ok that g" by (rule reachable_snapshot [OF re d])
  have b: "?b < 2 ^ branchAddrBits that" using inv_bucket(1) [OF i, of pc] by (simp add: bucket_def)
  from update_eval [OF i d ok, of tid pc taken squashed] obtain hw aw where
    u: "update that hq tid pc taken (Some q) squashed =
       Some (if fires g squashed
             then that\<lparr>historyWeightTable := hw, addrWeightTable := aw\<rparr> else that,
             if squashed then hq else hq[q := None],
             if squashed then Some q else None)" and
    hw: "\<forall>r c. r < 2 ^ branchAddrBits that \<longrightarrow> c \<le> history_length that \<longrightarrow>
        hw ! r ! c = historyWeightTable that ! r ! c +
          weight_delta (bph_path g) taken (snapshot_reg that g) (history_length that) ?b r c" and
    aw: "\<forall>r c. r < 2 ^ branchAddrBits that \<longrightarrow> c \<le> branchAddrBits that \<longrightarrow>
        aw ! r ! c = addrWeightTable that ! r ! c +
          weight_delta (bph_path g) taken (bucket that pc) (branchAddrBits that) ?b r c"
    by blast
  from hw b have h0: "hw ! ?b ! 0 = historyWeightTable that ! ?b ! 0 + (if taken then 1 else - 1)"
    by (simp add: weight_delta_bias)
  from aw b have a0: "aw ! ?b ! 0 = addrWeightTable that ! ?b ! 0 + (if taken then 1 else - 1)"
    by (simp add: weight_delta_bias)
  from h0 have hne: "hw \<noteq> historyWeightTable that" by (cases taken) auto
  from a0 have ane: "aw \<noteq> addrWeightTable that" by (cases taken) auto
  from u f h0 a0 hne ane
  show "\<exists>that' hq' bq'. update that hq tid pc taken (Some q) squashed = Some (that', hq', bq') \<and>
         historyWeightTable that' ! ?b ! 0 =
           historyWeightTable that ! ?b ! 0 + (if taken then 1 else - 1) \<and>
         addrWeightTable that' ! ?b ! 0 =
           addrWeightTable that ! ?b ! 0 + (if taken then 1 else - 1) \<and>
         historyWeightTable that' \<noteq> historyWeightTable that \<and>
         addrWeightTable that' \<noteq> addrWeightTable that"
    by simp
qed

theorem update_saturation_policy_witness:
  "deref [Some W_snap_sat] 0 = Some W_snap_sat \<and> 64 < \<bar>sint (bph_last_y W_snap_sat)\<bar> \<and>
   (\<exists>this' hp' bp'.
      update W_adv [Some W_snap_sat] 0 1 True (Some 0) False = Some (this', hp', bp') \<and>
      historyWeightTable this' = historyWeightTable W_adv \<and>
      addrWeightTable this' = addrWeightTable W_adv) \<and>
   reachable W_params (W_adv, [Some W_snap_adv]) \<and>
   deref [Some W_snap_adv] 0 = Some W_snap_adv \<and>
   - 64 \<le> sint (bph_last_y W_snap_adv) \<and> sint (bph_last_y W_snap_adv) \<le> 64 \<and>
   (\<exists>that' hq' bq'.
      update W_adv [Some W_snap_adv] 0 1 True (Some 0) False = Some (that', hq', bq') \<and>
      historyWeightTable that' ! unat (bucket W_adv 1) ! 0 =
        historyWeightTable W_adv ! unat (bucket W_adv 1) ! 0 + (if True then 1 else - 1) \<and>
      addrWeightTable that' ! unat (bucket W_adv 1) ! 0 =
        addrWeightTable W_adv ! unat (bucket W_adv 1) ! 0 + (if True then 1 else - 1) \<and>
      historyWeightTable that' \<noteq> historyWeightTable W_adv \<and>
      addrWeightTable that' \<noteq> addrWeightTable W_adv)"
proof -
  have y: "sint (bph_last_y W_snap_sat) = 100" "sint (bph_last_y W_snap_adv) = 0"
    by (simp_all add: W_snap_sat_def W_snap_adv_def W_snap_def)
  from update_saturation_policy [where hp = "[Some W_snap_sat]" and p = 0 and h = W_snap_sat
      and this = W_adv and tid = 0 and pc = 1 and taken = True and params = W_params
      and that = W_adv and hq = "[Some W_snap_adv]" and q = 0 and g = W_snap_adv
      and squashed = False]
    W_deref W_reachable(2) y
  show ?thesis by simp
qed



text \<open>
  C5. \<^verbatim>\<open>lookup\<close> is read-only. A call that returns leaves the whole predictor as it was
  (every global history register, every local history register, every path queue, both
  weight tables); its only effect is one new snapshot on the heap, handed back through the
  handle. The prediction and the contents of that snapshot are a function of the predictor,
  the thread and the address alone: the same call on any other heap returns the same
  prediction and the same snapshot. In every reachable state and for every thread of the
  predictor the call does return.
\<close>

theorem lookup_read_only:
  "(lookup this hp tid pc = Some (this', hp', bp, b) \<longrightarrow>
      this' = this \<and>
      (\<exists>s. hp' = hp @ [Some s] \<and> bp = Some (length hp) \<and>
           (\<forall>hp2. lookup this hp2 tid pc = Some (this, hp2 @ [Some s], Some (length hp2), b)))) \<and>
   (reachable params (that, hq) \<and> tid < par_numThreads params \<longrightarrow>
      (\<exists>s b. \<forall>hp2. lookup that hp2 tid pc = Some (that, hp2 @ [Some s], Some (length hp2), b)))"
proof (intro conjI impI)
  assume "lookup this hp tid pc = Some (this', hp', bp, b)"
  from lookup_SomeD [OF this]
  show "this' = this"
    and "\<exists>s. hp' = hp @ [Some s] \<and> bp = Some (length hp) \<and>
           (\<forall>hp2. lookup this hp2 tid pc = Some (this, hp2 @ [Some s], Some (length hp2), b))"
    by simp_all
next
  assume a: "reachable params (that, hq) \<and> tid < par_numThreads params"
  then have i: "inv that" and t: "tid < length (globalHistoryReg that)"
    using reachable_wf(1,2) [of params that hq] by simp_all
  from lookup_eval [OF i t]
  show "\<exists>s b. \<forall>hp2. lookup that hp2 tid pc = Some (that, hp2 @ [Some s], Some (length hp2), b)"
    by blast
qed

theorem lookup_read_only_witness:
  "lookup W_init [] 0 1 = Some (W_init, [Some W_snap], Some 0, True) \<and>
   (\<exists>s. [Some W_snap] = [] @ [Some s] \<and>
        (\<forall>hp2. lookup W_init hp2 0 1 = Some (W_init, hp2 @ [Some s], Some (length hp2), True))) \<and>
   reachable W_params (W_trained, [None]) \<and> 0 < par_numThreads W_params \<and>
   (\<exists>s b. \<forall>hp2. lookup W_trained hp2 0 1 =
      Some (W_trained, hp2 @ [Some s], Some (length hp2), b))"
  using lookup_read_only [where this = W_init and hp = "[]" and tid = 0 and pc = 1
      and this' = W_init and hp' = "[Some W_snap]" and bp = "Some 0" and b = True
      and params = W_params and that = W_trained and hq = "[None]"]
    W_lookup W_trained_reachable W_threads
  by simp

text \<open>
  C6. Training monotonicity. In every reachable state and for every live snapshot,
  \<^verbatim>\<open>update\<close> returns, and every entry of either weight table is afterwards its old value,
  its old value plus one or its old value minus one: an entry that is modified has moved by
  exactly one step, and all others are unchanged. When training fires, the entries that
  have moved are \<open>history_length + 1\<close> in the history table and \<open>branchAddrBits + 1\<close> in the
  address table, one step each; when it does not fire, none has. So the steps of one call
  number at most \<open>history_length + branchAddrBits + 2\<close>.
\<close>

theorem update_moves_weights_by_one:
  assumes "reachable params (this, hp)" "deref hp p = Some h"
  shows "\<exists>this' hp' bp'.
     update this hp tid pc taken (Some p) squashed = Some (this', hp', bp') \<and>
     (\<forall>r c. r < length (historyWeightTable this) \<longrightarrow> c < length (historyWeightTable this ! r) \<longrightarrow>
        historyWeightTable this' ! r ! c = historyWeightTable this ! r ! c \<or>
        historyWeightTable this' ! r ! c = historyWeightTable this ! r ! c + 1 \<or>
        historyWeightTable this' ! r ! c = historyWeightTable this ! r ! c - 1) \<and>
     (\<forall>r c. r < length (addrWeightTable this) \<longrightarrow> c < length (addrWeightTable this ! r) \<longrightarrow>
        addrWeightTable this' ! r ! c = addrWeightTable this ! r ! c \<or>
        addrWeightTable this' ! r ! c = addrWeightTable this ! r ! c + 1 \<or>
        addrWeightTable this' ! r ! c = addrWeightTable this ! r ! c - 1) \<and>
     card (changed (historyWeightTable this) (historyWeightTable this')) =
       (if fires h squashed then history_length this + 1 else 0) \<and>
     card (changed (addrWeightTable this) (addrWeightTable this')) =
       (if fires h squashed then branchAddrBits this + 1 else 0) \<and>
     card (changed (historyWeightTable this) (historyWeightTable this')) +
     card (changed (addrWeightTable this) (addrWeightTable this'))
       \<le> history_length this + branchAddrBits this + 2"
proof -
  let ?b = "unat (bucket this pc)"
  have i: "inv this" by (rule reachable_wf(1) [OF assms(1)])
  have ok: "snapshot_ok this h" by (rule reachable_snapshot [OF assms])
  note t = inv_tables [OF i]
  note w = inv_widths [OF i]
  from ok have len: "length (bph_path h) = max (branchAddrBits this) (history_length this)"
    and ent: "list_all (\<lambda>e. unat e \<le> unat (pcMask this)) (bph_path h)"
    by (simp_all add: snapshot_ok_def)
  have rows: "\<forall>i<length (bph_path h).
      unat (ucast (bph_path h ! i) :: unsigned) < 2 ^ branchAddrBits this"
    using path_rows [OF ent i] by simp
  have b: "?b < 2 ^ branchAddrBits this" using inv_bucket(1) [OF i, of pc] by (simp add: bucket_def)
  from update_eval [OF i assms(2) ok, of tid pc taken squashed] obtain hw aw where
    u: "update this hp tid pc taken (Some p) squashed =
       Some (if fires h squashed
             then this\<lparr>historyWeightTable := hw, addrWeightTable := aw\<rparr> else this,
             if squashed then hp else hp[p := None],
             if squashed then Some p else None)" and
    hw: "\<forall>r c. r < 2 ^ branchAddrBits this \<longrightarrow> c \<le> history_length this \<longrightarrow>
        hw ! r ! c = historyWeightTable this ! r ! c +
          weight_delta (bph_path h) taken (snapshot_reg this h) (history_length this) ?b r c" and
    aw: "\<forall>r c. r < 2 ^ branchAddrBits this \<longrightarrow> c \<le> branchAddrBits this \<longrightarrow>
        aw ! r ! c = addrWeightTable this ! r ! c +
          weight_delta (bph_path h) taken (bucket this pc) (branchAddrBits this) ?b r c"
    by blast
  have hw': "\<forall>r c. r < length (historyWeightTable this) \<longrightarrow>
        c < length (historyWeightTable this ! r) \<longrightarrow>
        hw ! r ! c = historyWeightTable this ! r ! c +
          weight_delta (bph_path h) taken (snapshot_reg this h) (history_length this) ?b r c"
    using hw t(2,4) by simp
  have aw': "\<forall>r c. r < length (addrWeightTable this) \<longrightarrow>
        c < length (addrWeightTable this ! r) \<longrightarrow>
        aw ! r ! c = addrWeightTable this ! r ! c +
          weight_delta (bph_path h) taken (bucket this pc) (branchAddrBits this) ?b r c"
    using aw t(3,5) by simp
  show ?thesis
  proof (cases "fires h squashed")
    case False
    with u show ?thesis by simp
  next
    case True
    have h3: "hw ! r ! c = historyWeightTable this ! r ! c \<or>
        hw ! r ! c = historyWeightTable this ! r ! c + 1 \<or>
        hw ! r ! c = historyWeightTable this ! r ! c - 1"
      if "r < length (historyWeightTable this)" "c < length (historyWeightTable this ! r)" for r c
      using hw' that
        weight_delta_cases [of "bph_path h" taken "snapshot_reg this h" "history_length this" ?b r c]
      by auto
    have a3: "aw ! r ! c = addrWeightTable this ! r ! c \<or>
        aw ! r ! c = addrWeightTable this ! r ! c + 1 \<or>
        aw ! r ! c = addrWeightTable this ! r ! c - 1"
      if "r < length (addrWeightTable this)" "c < length (addrWeightTable this ! r)" for r c
      using aw' that
        weight_delta_cases [of "bph_path h" taken "bucket this pc" "branchAddrBits this" ?b r c]
      by auto
    have ch: "card (changed (historyWeightTable this) hw) = history_length this + 1"
      using hw'
    proof (rule card_changed_eq)
      show "?b < length (historyWeightTable this)" using b t(2) by simp
      show "\<forall>i<history_length this.
          unat (ucast (bph_path h ! i) :: unsigned) < length (historyWeightTable this)"
        using rows len t(2) by simp
      show "\<forall>r<length (historyWeightTable this).
          length (historyWeightTable this ! r) = history_length this + 1"
        by (rule t(4))
    qed
    have ca: "card (changed (addrWeightTable this) aw) = branchAddrBits this + 1"
      using aw'
    proof (rule card_changed_eq)
      show "?b < length (addrWeightTable this)" using b t(3) by simp
      show "\<forall>i<branchAddrBits this.
          unat (ucast (bph_path h ! i) :: unsigned) < length (addrWeightTable this)"
        using rows len t(3) by simp
      show "\<forall>r<length (addrWeightTable this).
          length (addrWeightTable this ! r) = branchAddrBits this + 1"
        by (rule t(5))
    qed
    from u True h3 a3 ch ca show ?thesis by simp
  qed
qed

theorem update_moves_weights_by_one_witness:
  "reachable W_params (W_adv, [Some W_snap_adv]) \<and>
   deref [Some W_snap_adv] 0 = Some W_snap_adv \<and>
   (\<exists>this' hp' bp'.
     update W_adv [Some W_snap_adv] 0 1 True (Some 0) False = Some (this', hp', bp') \<and>
     (\<forall>r c. r < length (historyWeightTable W_adv) \<longrightarrow> c < length (historyWeightTable W_adv ! r) \<longrightarrow>
        historyWeightTable this' ! r ! c = historyWeightTable W_adv ! r ! c \<or>
        historyWeightTable this' ! r ! c = historyWeightTable W_adv ! r ! c + 1 \<or>
        historyWeightTable this' ! r ! c = historyWeightTable W_adv ! r ! c - 1) \<and>
     (\<forall>r c. r < length (addrWeightTable W_adv) \<longrightarrow> c < length (addrWeightTable W_adv ! r) \<longrightarrow>
        addrWeightTable this' ! r ! c = addrWeightTable W_adv ! r ! c \<or>
        addrWeightTable this' ! r ! c = addrWeightTable W_adv ! r ! c + 1 \<or>
        addrWeightTable this' ! r ! c = addrWeightTable W_adv ! r ! c - 1) \<and>
     card (changed (historyWeightTable W_adv) (historyWeightTable this')) =
       (if fires W_snap_adv False then history_length W_adv + 1 else 0) \<and>
     card (changed (addrWeightTable W_adv) (addrWeightTable this')) =
       (if fires W_snap_adv False then branchAddrBits W_adv + 1 else 0) \<and>
     card (changed (historyWeightTable W_adv) (historyWeightTable this')) +
     card (changed (addrWeightTable W_adv) (addrWeightTable this'))
       \<le> history_length W_adv + branchAddrBits W_adv + 2)"
  using update_moves_weights_by_one [OF W_reachable(2) W_deref(1), of 0 1 True False]
    W_reachable(2) W_deref(1)
  by blast

text \<open>
  C7. Training from the snapshot's history. \<^verbatim>\<open>update\<close> takes the rows of its training
  steps from the snapshot's path copy and its history bits from the snapshot's members,
  but the bits are not everywhere those of the history that the snapshot records.
  \<^verbatim>\<open>update\<close> reads the recorded local history, the \<^verbatim>\<open>int\<close> member \<^verbatim>\<open>local\<close>, into an
  \<^verbatim>\<open>Addr\<close>, which extends its sign, where \<^verbatim>\<open>lookup\<close> had extended the same register
  with zeros. The predictor with one bit of global history, 32 bits of local history and
  no address bit reaches, after the advance of one taken and 31 not-taken branches at
  address 0, the state \<open>L32_run 31\<close>, whose local history register of bucket 0 is
  \<open>2 ^ 31\<close>. There \<^verbatim>\<open>lookup(0, 0)\<close> scores with the combined history \<open>2 ^ 31\<close>, and the
  snapshot it returns records that history: bit 32, the bit of the global history, is
  clear. \<^verbatim>\<open>update\<close> with \<open>taken = true\<close> on that snapshot reads bit 32 as set, and step
  33 moves the weight in column 33 of row 0 up, from 0 to 1, where the recorded history
  makes it move down, to \<open>-1\<close>.
\<close>

theorem update_sign_extends_local:
  "reachable L32_params (L32_run 31, [Some L32_advanced]) \<and>
   lookup (L32_run 31) [Some L32_advanced] 0 0 =
     Some (L32_run 31, [Some L32_advanced, Some L32_snap], Some 1, True) \<and>
   combined_history (L32_run 31) 0 0 = 2 ^ 31 \<and>
   snapshot_combined_history (L32_run 31) L32_snap = 2 ^ 31 \<and>
   \<not> bit (snapshot_combined_history (L32_run 31) L32_snap) 32 \<and>
   bit (snapshot_reg (L32_run 31) L32_snap) 32 \<and>
   update (L32_run 31) [Some L32_advanced, Some L32_snap] 0 0 True (Some 1) False =
     Some (L32_trained, [Some L32_advanced, None], None) \<and>
   historyWeightTable (L32_run 31) ! 0 ! 33 = 0 \<and>
   historyWeightTable L32_trained ! 0 ! 33 = 1 \<and>
   historyWeightTable (L32_run 31) ! 0 ! 33 +
     weight_delta (bph_path L32_snap) True (snapshot_combined_history (L32_run 31) L32_snap)
       33 0 0 33 = - 1"
proof -
  have r: "reachable L32_params (L32_run 31, [Some L32_advanced])"
    using L32_reachable [of 30] by simp
  have b: "\<not> bit (snapshot_combined_history (L32_run 31) L32_snap) 32"
    unfolding L32_histories by (simp add: bit_exp_iff)
  have c: "bit (snapshot_reg (L32_run 31) L32_snap) 32"
    by (simp add: L32_reg_bit)
  from r L32_lookup L32_histories b c L32_update L32_column_33 L32_recorded_delta
  show ?thesis by simp
qed

text \<open>
  C8. Disposal of the snapshot. A call of \<^verbatim>\<open>update\<close> that returns was given a live snapshot;
  when \<open>squashed\<close> is false it deletes the snapshot and nulls the handle, and when
  \<open>squashed\<close> is true it leaves the heap and the handle as they were, the snapshot still
  live. A call of \<^verbatim>\<open>squash\<close> that returns always deletes the snapshot and nulls the handle.
  In every reachable state \<^verbatim>\<open>update\<close> does return on every live snapshot, and \<^verbatim>\<open>squash\<close>
  on every live snapshot that an advance has completed.
\<close>

theorem snapshot_disposal:
  "(update this hp tid pc taken bp squashed = Some (this', hp', bp') \<longrightarrow>
      (\<exists>p h. bp = Some p \<and> deref hp p = Some h \<and>
         (if squashed then hp' = hp \<and> bp' = bp \<and> deref hp' p = Some h
          else hp' = delete_BPHistory hp p \<and> bp' = None \<and> deref hp' p = None))) \<and>
   (squash this hp tid bp = Some (this'', hp'', bp'') \<longrightarrow>
      (\<exists>p h. bp = Some p \<and> deref hp p = Some h \<and>
         hp'' = delete_BPHistory hp p \<and> bp'' = None \<and> deref hp'' p = None)) \<and>
   (reachable params (that, hq) \<and> deref hq q = Some g \<longrightarrow>
      (\<exists>that'. update that hq tid pc taken (Some q) squashed =
         Some (that', if squashed then hq else delete_BPHistory hq q,
               if squashed then Some q else None))) \<and>
   (reachable params (that, hq) \<and> deref hq q = Some g \<and> bph_branchAddrReplaced g \<and>
    tid < par_numThreads params \<longrightarrow>
      (\<exists>that'. squash that hq tid (Some q) = Some (that', delete_BPHistory hq q, None)))"
proof (intro conjI impI)
  assume "update this hp tid pc taken bp squashed = Some (this', hp', bp')"
  then obtain p h where "bp = Some p" "deref hp p = Some h"
    "hp' = (if squashed then hp else hp[p := None])" "bp' = (if squashed then bp else None)"
    by (auto simp: update_Some)
  then show "\<exists>p h. bp = Some p \<and> deref hp p = Some h \<and>
         (if squashed then hp' = hp \<and> bp' = bp \<and> deref hp' p = Some h
          else hp' = delete_BPHistory hp p \<and> bp' = None \<and> deref hp' p = None)"
    by (simp add: deref_def delete_BPHistory_def)
next
  assume "squash this hp tid bp = Some (this'', hp'', bp'')"
  from squash_SomeD [OF this] obtain p h where "bp = Some p" "deref hp p = Some h"
    "hp'' = hp[p := None]" "bp'' = None"
    by blast
  then show "\<exists>p h. bp = Some p \<and> deref hp p = Some h \<and>
         hp'' = delete_BPHistory hp p \<and> bp'' = None \<and> deref hp'' p = None"
    by (simp add: deref_def delete_BPHistory_def)
next
  assume a: "reachable params (that, hq) \<and> deref hq q = Some g"
  then have re: "reachable params (that, hq)" and d: "deref hq q = Some g" by simp_all
  from inv_update [OF reachable_wf(1) [OF re] d reachable_snapshot [OF re d],
      of tid pc taken squashed]
  show "\<exists>that'. update that hq tid pc taken (Some q) squashed =
         Some (that', if squashed then hq else delete_BPHistory hq q,
               if squashed then Some q else None)"
    by (auto simp: delete_BPHistory_def)
next
  assume a: "reachable params (that, hq) \<and> deref hq q = Some g \<and> bph_branchAddrReplaced g \<and>
    tid < par_numThreads params"
  then have re: "reachable params (that, hq)" and d: "deref hq q = Some g"
    and r: "bph_branchAddrReplaced g" and t: "tid < par_numThreads params" by simp_all
  note w = reachable_wf [OF re]
  from t w(2) have t': "tid < length (globalHistoryReg that)" by simp
  have "advanced that g" using heap_inv_deref [OF w(3) d] r by (rule snap_inv_advanced)
  from inv_squash [OF w(1) t' d this]
  show "\<exists>that'. squash that hq tid (Some q) = Some (that', delete_BPHistory hq q, None)"
    by (auto simp: delete_BPHistory_def)
qed

theorem snapshot_disposal_witness:
  "update W_adv [Some W_snap_adv] 0 1 True (Some 0) False = Some (W_trained, [None], None) \<and>
   (\<exists>p h. Some (0::nat) = Some p \<and> deref [Some W_snap_adv] p = Some h \<and>
      [None] = delete_BPHistory [Some W_snap_adv] p \<and> deref [None] p = None) \<and>
   squash W_adv [Some W_snap_adv] 0 (Some 0) = Some (W_init, [None], None) \<and>
   (\<exists>p h. Some (0::nat) = Some p \<and> deref [Some W_snap_adv] p = Some h \<and>
      [None] = delete_BPHistory [Some W_snap_adv] p \<and> deref [None] p = None) \<and>
   reachable W_params (W_adv, [Some W_snap_adv]) \<and>
   deref [Some W_snap_adv] 0 = Some W_snap_adv \<and> bph_branchAddrReplaced W_snap_adv \<and>
   0 < par_numThreads W_params \<and>
   (\<exists>that'. update W_adv [Some W_snap_adv] 0 1 True (Some 0) False =
      Some (that', delete_BPHistory [Some W_snap_adv] 0, None)) \<and>
   (\<exists>that'. squash W_adv [Some W_snap_adv] 0 (Some 0) =
      Some (that', delete_BPHistory [Some W_snap_adv] 0, None))"
proof -
  have u: "update W_adv [Some W_snap_adv] 0 1 True (Some 0) False = Some (W_trained, [None], None)"
    using W_update [of False] by simp
  have r: "bph_branchAddrReplaced W_snap_adv" by (simp add: W_snap_adv_def)
  from snapshot_disposal [where this = W_adv and hp = "[Some W_snap_adv]" and tid = 0
      and pc = 1 and taken = True and bp = "Some 0" and squashed = False and this' = W_trained
      and hp' = "[None]" and bp' = None and this'' = W_init and hp'' = "[None]" and bp'' = None
      and params = W_params and that = W_adv and hq = "[Some W_snap_adv]" and q = 0
      and g = W_snap_adv]
    u W_squash W_reachable(2) W_deref(1) r W_threads
  show ?thesis by (simp add: delete_BPHistory_def deref_def)
qed

text \<open>
  C9. Capacity of the path queues. The constructor gives every thread a path queue of
  exactly \<open>max branchAddrBits history_length\<close> entries, all zero. When every queue holds
  exactly that many entries, a returning call of \<^verbatim>\<open>lookup\<close>, of \<^verbatim>\<open>updateHistories\<close> or of
  \<^verbatim>\<open>update\<close> leaves it so, and so does a returning call of \<^verbatim>\<open>squash\<close> on the snapshot that
  the matching \<^verbatim>\<open>updateHistories\<close> has just produced. Consequently every returning call of
  \<^verbatim>\<open>updateHistories\<close> has evicted the back entry of the thread's queue and recorded it in
  the snapshot, with the replaced flag set. Every reachable state has all its queues at
  capacity, and there \<^verbatim>\<open>updateHistories\<close> returns for every thread of the predictor,
  given a live snapshot or asked to make one.
\<close>

theorem path_queue_capacity:
  "(PerceptronBP_new params = Some this0 \<longrightarrow>
      pathTable this0 = replicate (par_numThreads params)
        (replicate (max (branchAddrBits this0) (history_length this0)) 0) \<and>
      path_full this0) \<and>
   (path_full this \<longrightarrow>
      (lookup this hp tid pc = Some (this1, hp1, bp1, b1) \<longrightarrow> path_full this1) \<and>
      (updateHistories this hp tid pc uncond taken bp = Some (this2, hp2, bp2) \<longrightarrow>
         path_full this2 \<and>
         (\<exists>p h. bp2 = Some p \<and> deref hp2 p = Some h \<and> bph_branchAddrReplaced h \<and>
                 bph_branchAddr h = Some (ucast (last (pathTable this ! tid)))) \<and>
         (squash this2 hp2 tid bp2 = Some (this4, hp4, bp4) \<longrightarrow> path_full this4)) \<and>
      (update this hp tid pc taken bp squashed = Some (this3, hp3, bp3) \<longrightarrow> path_full this3)) \<and>
   (reachable params (that, hq) \<longrightarrow>
      path_full that \<and>
      (tid < par_numThreads params \<and> (uncond \<or> (\<exists>q g. bq = Some q \<and> deref hq q = Some g)) \<longrightarrow>
         (\<exists>that' hq' bq'. updateHistories that hq tid pc uncond taken bq = Some (that', hq', bq'))))"
proof (intro conjI impI)
  assume n: "PerceptronBP_new params = Some this0"
  from PerceptronBP_new_queues [OF n]
  show q: "pathTable this0 = replicate (par_numThreads params)
        (replicate (max (branchAddrBits this0) (history_length this0)) 0)" .
  show "path_full this0" unfolding path_full_def q by (simp add: list_all_iff)
next
  assume f: "path_full this" and "lookup this hp tid pc = Some (this1, hp1, bp1, b1)"
  from lookup_SomeD [OF this(2)] have "this1 = this" by simp
  with f show "path_full this1" by simp
next
  assume f: "path_full this"
    and u: "updateHistories this hp tid pc uncond taken bp = Some (this2, hp2, bp2)"
  note d = updateHistories_full [OF u f]
  from d show f2: "path_full this2"
    using path_full_advance_state [OF f, of tid pc taken] by simp
  from d show "\<exists>p h. bp2 = Some p \<and> deref hp2 p = Some h \<and> bph_branchAddrReplaced h \<and>
                 bph_branchAddr h = Some (ucast (last (pathTable this ! tid)))"
    by simp
  assume s: "squash this2 hp2 tid bp2 = Some (this4, hp4, bp4)"
  from d obtain p h where ph: "bp2 = Some p" "deref hp2 p = Some h" "bph_branchAddrReplaced h"
    by blast
  from d have ne: "pathTable this2 ! tid \<noteq> []" by (simp add: advance_state_def)
  from s show "path_full this4"
    unfolding ph(1) using f2 ph(2,3) ne by (rule path_full_squash)
next
  assume f: "path_full this"
    and "update this hp tid pc taken bp squashed = Some (this3, hp3, bp3)"
  from update_SomeD [OF this(2)] have "pathTable this3 = pathTable this"
    "this3 = this\<lparr>historyWeightTable := historyWeightTable this3,
                       addrWeightTable := addrWeightTable this3\<rparr>"
    by simp_all
  then have "pathTable this3 = pathTable this" "branchAddrBits this3 = branchAddrBits this"
    "history_length this3 = history_length this"
    by (simp_all, (metis PerceptronBP.select_convs(7,8) PerceptronBP.surjective
        PerceptronBP.update_convs(11,12))+)
  with f show "path_full this3" by (simp add: path_full_def)
next
  assume re: "reachable params (that, hq)"
  note w = reachable_wf [OF re]
  show "path_full that" by (rule inv_path_full [OF w(1)])
  assume a: "tid < par_numThreads params \<and> (uncond \<or> (\<exists>q g. bq = Some q \<and> deref hq q = Some g))"
  with w(2) have t: "tid < length (globalHistoryReg that)" by simp
  show "\<exists>that' hq' bq'. updateHistories that hq tid pc uncond taken bq = Some (that', hq', bq')"
  proof (cases uncond)
    case True
    with updateHistories_eval_uncond [OF w(1) t, of hq pc taken bq] show ?thesis by simp
  next
    case False
    with a obtain q g where "bq = Some q" "deref hq q = Some g" by blast
    with False updateHistories_eval [OF w(1) t this(2), of pc taken] show ?thesis by simp
  qed
qed

theorem path_queue_capacity_witness:
  "PerceptronBP_new W_params = Some W_init \<and>
   pathTable W_init = replicate (par_numThreads W_params)
        (replicate (max (branchAddrBits W_init) (history_length W_init)) 0) \<and>
   path_full W_init \<and> path_full W_adv \<and>
   lookup W_adv [Some W_snap_adv] 0 1 =
     Some (W_adv, [Some W_snap_adv, Some (W_snap\<lparr>bph_globalHistoryReg := 1, bph_local := 1,
        bph_path := [1, 0]\<rparr>)], Some 1, True) \<and>
   updateHistories W_adv [Some W_snap_adv] 0 1 False True (Some 0) =
     Some (W_adv\<lparr>pathTable := [[1, 1]]\<rparr>, [Some W_snap_adv], Some 0) \<and>
   path_full (W_adv\<lparr>pathTable := [[1, 1]]\<rparr>) \<and>
   (\<exists>p h. Some (0::nat) = Some p \<and> deref [Some W_snap_adv] p = Some h \<and> bph_branchAddrReplaced h \<and>
           bph_branchAddr h = Some (ucast (last (pathTable W_adv ! 0)))) \<and>
   squash (W_adv\<lparr>pathTable := [[1, 1]]\<rparr>) [Some W_snap_adv] 0 (Some 0) =
     Some (W_init\<lparr>pathTable := [[1, 0]]\<rparr>, [None], None) \<and>
   path_full (W_init\<lparr>pathTable := [[1, 0]]\<rparr>) \<and>
   update W_adv [Some W_snap_adv] 0 1 True (Some 0) False = Some (W_trained, [None], None) \<and>
   path_full W_trained \<and>
   reachable W_params (W_adv, [Some W_snap_adv]) \<and> 0 < par_numThreads W_params \<and>
   (\<exists>q g. Some (0::nat) = Some q \<and> deref [Some W_snap_adv] q = Some g) \<and>
   (\<exists>that' hq' bq'. updateHistories W_adv [Some W_snap_adv] 0 1 False True (Some 0) =
      Some (that', hq', bq'))"
proof -
  have l: "lookup W_adv [Some W_snap_adv] 0 1 =
     Some (W_adv, [Some W_snap_adv, Some (W_snap\<lparr>bph_globalHistoryReg := 1, bph_local := 1,
        bph_path := [1, 0]\<rparr>)], Some 1, True)"
    by (simp add: lookup_def W_init_def W_adv_def W_snap_def W_snap_adv_def Let_def at_def
        new_BPHistory_def score_loop.simps)
  have a: "updateHistories W_adv [Some W_snap_adv] 0 1 False True (Some 0) =
     Some (W_adv\<lparr>pathTable := [[1, 1]]\<rparr>, [Some W_snap_adv], Some 0)"
    by (simp add: updateHistories_def W_init_def W_snap_def W_adv_def W_snap_adv_def Let_def
        at_def deref_def)
  have s: "squash (W_adv\<lparr>pathTable := [[1, 1]]\<rparr>) [Some W_snap_adv] 0 (Some 0) =
     Some (W_init\<lparr>pathTable := [[1, 0]]\<rparr>, [None], None)"
    by (simp add: squash_def W_init_def W_snap_def W_adv_def W_snap_adv_def Let_def at_def
        deref_def delete_BPHistory_def)
  have u: "update W_adv [Some W_snap_adv] 0 1 True (Some 0) False = Some (W_trained, [None], None)"
    using W_update [of False] by simp
  have f: "path_full W_adv" by (simp add: path_full_def W_adv_def W_init_def)
  have e: "\<exists>q g. Some (0::nat) = Some q \<and> deref [Some W_snap_adv] q = Some g"
    using W_deref(1) by blast
  from path_queue_capacity [where params = W_params and ?this0.0 = W_init and this = W_adv
      and hp = "[Some W_snap_adv]" and tid = 0 and pc = 1 and uncond = False and taken = True
      and bp = "Some 0" and squashed = False and ?this1.0 = W_adv
      and ?hp1.0 = "[Some W_snap_adv, Some (W_snap\<lparr>bph_globalHistoryReg := 1, bph_local := 1,
        bph_path := [1, 0]\<rparr>)]" and ?bp1.0 = "Some 1" and ?b1.0 = True
      and ?this2.0 = "W_adv\<lparr>pathTable := [[1, 1]]\<rparr>" and ?hp2.0 = "[Some W_snap_adv]"
      and ?bp2.0 = "Some 0" and ?this4.0 = "W_init\<lparr>pathTable := [[1, 0]]\<rparr>"
      and ?hp4.0 = "[None]" and ?bp4.0 = None and ?this3.0 = W_trained and ?hp3.0 = "[None]"
      and ?bp3.0 = None and that = W_adv and hq = "[Some W_snap_adv]" and bq = "Some 0"]
    W_new l a s u f W_reachable(2) W_threads e
  show ?thesis by simp
qed

text \<open>
  C10. \<^verbatim>\<open>update\<close> never modifies the history store. A call that returns leaves every
  global history register, every local history register and every path queue unchanged;
  the predictor it returns differs from the one it was given in the two weight tables at
  most, and the heap changes only by the deletion of the snapshot when \<open>squashed\<close> is
  false. In every reachable state the call returns on every live snapshot.
\<close>

theorem update_frame:
  "(update this hp tid pc taken bp squashed = Some (this', hp', bp') \<longrightarrow>
      globalHistoryReg this' = globalHistoryReg this \<and>
      branchHistoryTable this' = branchHistoryTable this \<and>
      pathTable this' = pathTable this \<and>
      this' = this\<lparr>historyWeightTable := historyWeightTable this',
                    addrWeightTable := addrWeightTable this'\<rparr> \<and>
      (\<exists>p. bp = Some p \<and> hp' = (if squashed then hp else delete_BPHistory hp p))) \<and>
   (reachable params (that, hq) \<and> deref hq q = Some g \<longrightarrow>
      (\<exists>that' hq' bq'. update that hq tid pc taken (Some q) squashed = Some (that', hq', bq')))"
proof (intro conjI impI)
  assume u: "update this hp tid pc taken bp squashed = Some (this', hp', bp')"
  from update_SomeD [OF u]
  show "globalHistoryReg this' = globalHistoryReg this"
    and "branchHistoryTable this' = branchHistoryTable this"
    and "pathTable this' = pathTable this"
    and "this' = this\<lparr>historyWeightTable := historyWeightTable this',
                    addrWeightTable := addrWeightTable this'\<rparr>"
    and "\<exists>p. bp = Some p \<and> hp' = (if squashed then hp else delete_BPHistory hp p)"
    by simp_all
next
  assume a: "reachable params (that, hq) \<and> deref hq q = Some g"
  then have re: "reachable params (that, hq)" and d: "deref hq q = Some g" by simp_all
  from inv_update [OF reachable_wf(1) [OF re] d reachable_snapshot [OF re d],
      of tid pc taken squashed]
  show "\<exists>that' hq' bq'. update that hq tid pc taken (Some q) squashed = Some (that', hq', bq')"
    by blast
qed

theorem update_frame_witness:
  "update W_adv [Some W_snap_adv] 0 1 True (Some 0) False = Some (W_trained, [None], None) \<and>
   globalHistoryReg W_trained = globalHistoryReg W_adv \<and>
   branchHistoryTable W_trained = branchHistoryTable W_adv \<and>
   pathTable W_trained = pathTable W_adv \<and>
   W_trained = W_adv\<lparr>historyWeightTable := historyWeightTable W_trained,
                       addrWeightTable := addrWeightTable W_trained\<rparr> \<and>
   [None] = delete_BPHistory [Some W_snap_adv] 0 \<and>
   reachable W_params (W_adv, [Some W_snap_adv]) \<and>
   deref [Some W_snap_adv] 0 = Some W_snap_adv \<and>
   (\<exists>that' hq' bq'. update W_adv [Some W_snap_adv] 0 1 True (Some 0) False =
      Some (that', hq', bq'))"
proof -
  have u: "update W_adv [Some W_snap_adv] 0 1 True (Some 0) False = Some (W_trained, [None], None)"
    using W_update [of False] by simp
  from update_frame [where this = W_adv and hp = "[Some W_snap_adv]" and tid = 0 and pc = 1
      and taken = True and bp = "Some 0" and squashed = False and this' = W_trained
      and hp' = "[None]" and bp' = None and params = W_params and that = W_adv
      and hq = "[Some W_snap_adv]" and q = 0 and g = W_snap_adv]
    u W_reachable(2) W_deref(1)
  show ?thesis by (simp add: delete_BPHistory_def)
qed

end
